theory Spec2Isabelle
  imports Main "HOL-Library.Word"
begin

unbundle bit_operations_syntax

section \<open>Data model of pa3.c\<close>

text \<open>
  The simulator keeps its state in the globals \<^verbatim>\<open>processes\<close>, \<^verbatim>\<open>current\<close>, \<^verbatim>\<open>ptbr\<close>,
  \<^verbatim>\<open>tlb\<close> and \<^verbatim>\<open>mapcounts\<close>, and in the objects it obtains from \<^verbatim>\<open>malloc\<close>.
  Every \<^verbatim>\<open>unsigned int\<close> is a 32-bit word.  The header \<^verbatim>\<open>vm.h\<close> is not among the
  sources; the sizes it fixes are parameters of the model (\<open>vm_config\<close>).
\<close>

type_synonym u32 = "32 word"

text \<open>
  Modelled from the spec: the access-mode macros of \<^verbatim>\<open>vm.h\<close> (READ bit, WRITE bit).
  The literal \<^verbatim>\<open>3\<close> that \<^verbatim>\<open>handle_page_fault\<close> passes for a read-write page fixes
  the two bits as 1 and 2.
\<close>

definition ACCESS_READ :: u32 where
  "ACCESS_READ = 1"

definition ACCESS_WRITE :: u32 where
  "ACCESS_WRITE = 2"

record vm_config =
  NR_PAGEFRAMES :: nat
  NR_PTES_PER_PAGE :: nat
  NR_PDES_PER_PAGE :: nat
  NR_TLB_ENTRIES :: nat

text \<open>\<^verbatim>\<open>struct pte\<close> and \<^verbatim>\<open>struct tlb_entry\<close>, with the fields the code touches.\<close>

record pte =
  pte_valid :: bool
  pte_rw :: u32
  pte_pfn :: u32
  pte_private :: u32

record tlb_entry =
  tlb_valid :: bool
  tlb_rw :: u32
  tlb_vpn :: u32
  tlb_pfn :: u32
  tlb_private :: u32

text \<open>
  A \<^verbatim>\<open>struct pte_directory\<close> is an array of \<^verbatim>\<open>NR_PTES_PER_PAGE\<close> entries; the objects
  live in a store (\<open>heap\<close>) and are named by their address, the index into the store.
  \<^verbatim>\<open>struct pagetable\<close> is the array \<^verbatim>\<open>pdes\<close> of pointers to them (\<open>None\<close> is \<^verbatim>\<open>NULL\<close>).
  \<^verbatim>\<open>struct process\<close> objects live in a second store (\<open>procs\<close>); the ready queue
  \<^verbatim>\<open>processes\<close> is the list of the addresses linked into it, head first, and \<^verbatim>\<open>ptbr\<close>
  holds the address of the process whose embedded page table it points at.
\<close>

type_synonym pte_directory = "pte list"

record pagetable =
  pdes :: "nat option list"

record process =
  pid :: u32
  pagetable :: pagetable

record vm_state =
  heap :: "pte_directory list"
  procs :: "process list"
  processes :: "nat list"
  current :: nat
  ptbr :: nat
  tlb :: "tlb_entry list"
  mapcounts :: "u32 list"

section \<open>The TLB\<close>

text \<open>
  \<^verbatim>\<open>lookup_tlb\<close>: the loop over \<^verbatim>\<open>tlb[0 .. NR_TLB_ENTRIES-1]\<close>.  The result \<open>Some pfn\<close> is
  \<^verbatim>\<open>true\<close> with \<^verbatim>\<open>*pfn\<close> written, \<open>None\<close> is \<^verbatim>\<open>false\<close>.
\<close>

fun lookup_scan :: "tlb_entry list \<Rightarrow> u32 \<Rightarrow> u32 \<Rightarrow> u32 option" where
  "lookup_scan [] vpn rw = None"
| "lookup_scan (e # es) vpn rw =
     (if tlb_vpn e = vpn \<and> tlb_rw e AND rw \<noteq> 0 then Some (tlb_pfn e)
      else lookup_scan es vpn rw)"

definition lookup_tlb :: "u32 \<Rightarrow> u32 \<Rightarrow> vm_state \<Rightarrow> u32 option" where
  "lookup_tlb vpn rw s = lookup_scan (tlb s) vpn rw"

text \<open>
  \<^verbatim>\<open>insert_tlb\<close>: the loop stops at the first invalid slot (\<^verbatim>\<open>idx = i; break\<close>, filled
  after the loop) or at the first slot, before it, whose \<^verbatim>\<open>vpn\<close> matches (updated in place,
  \<^verbatim>\<open>return\<close>).  When the loop runs to the end \<^verbatim>\<open>idx\<close> is still -1 and nothing is written.
\<close>

fun insert_scan :: "tlb_entry list \<Rightarrow> u32 \<Rightarrow> u32 \<Rightarrow> u32 \<Rightarrow> tlb_entry list" where
  "insert_scan [] vpn rw pfn = []"
| "insert_scan (e # es) vpn rw pfn =
     (if \<not> tlb_valid e then
        e\<lparr>tlb_valid := True, tlb_pfn := pfn, tlb_rw := rw, tlb_vpn := vpn\<rparr> # es
      else if tlb_vpn e = vpn then
        e\<lparr>tlb_valid := True, tlb_rw := rw, tlb_pfn := pfn\<rparr> # es
      else e # insert_scan es vpn rw pfn)"

definition insert_tlb :: "u32 \<Rightarrow> u32 \<Rightarrow> u32 \<Rightarrow> vm_state \<Rightarrow> vm_state" where
  "insert_tlb vpn rw pfn s = s\<lparr>tlb := insert_scan (tlb s) vpn rw pfn\<rparr>"

text \<open>
  Modelled from the spec: the lookup the specification describes.  It ``returns the frame
  for the first valid entry whose \<open>vpn\<close> matches and whose cached permission bitmask has all
  bits of \<open>access\<close> set''.  It is compared with \<open>lookup_tlb\<close> below.
\<close>

fun lookup_first :: "tlb_entry list \<Rightarrow> u32 \<Rightarrow> u32 \<Rightarrow> u32 option" where
  "lookup_first [] vpn access = None"
| "lookup_first (e # es) vpn access =
     (if tlb_valid e \<and> tlb_vpn e = vpn \<and> tlb_rw e AND access = access then Some (tlb_pfn e)
      else lookup_first es vpn access)"

text \<open>Modelled from the spec: \<^verbatim>\<open>lookup(vpn, access)\<close> on the TLB of a state.\<close>

definition lookup_spec :: "u32 \<Rightarrow> u32 \<Rightarrow> vm_state \<Rightarrow> u32 option" where
  "lookup_spec vpn access s = lookup_first (tlb s) vpn access"

section \<open>Page tables and frames\<close>

text \<open>The page directory array of the running process, \<^verbatim>\<open>current->pagetable.pdes\<close>.\<close>

definition cur_pdes :: "vm_state \<Rightarrow> nat option list" where
  "cur_pdes s = pdes (pagetable (procs s ! current s))"

text \<open>\<^verbatim>\<open>current->pagetable.pdes[i] = pd\<close>\<close>

definition set_cur_pde :: "nat \<Rightarrow> nat option \<Rightarrow> vm_state \<Rightarrow> vm_state" where
  "set_cur_pde i pd s =
     s\<lparr>procs := (procs s)[current s :=
          (procs s ! current s)\<lparr>pagetable := \<lparr>pdes = (cur_pdes s)[i := pd]\<rparr>\<rparr>]\<rparr>"

text \<open>
  A new directory page: \<^verbatim>\<open>pd = malloc(sizeof(struct pte_directory))\<close>, the next address
  of the store, holding \<open>pg\<close>, then \<^verbatim>\<open>current->pagetable.pdes[i] = pd\<close>.
\<close>

definition add_dir :: "nat \<Rightarrow> pte_directory \<Rightarrow> vm_state \<Rightarrow> vm_state" where
  "add_dir i pg s = set_cur_pde i (Some (length (heap s))) (s\<lparr>heap := heap s @ [pg]\<rparr>)"

text \<open>
  Reading \<^verbatim>\<open>pd->ptes[j]\<close>; \<open>None\<close> when the pointer is not an object of the store or the
  index leaves the array (undefined behaviour in C).
\<close>

definition pte_at :: "vm_state \<Rightarrow> nat \<Rightarrow> nat \<Rightarrow> pte option" where
  "pte_at s pd j =
     (if pd < length (heap s) \<and> j < length (heap s ! pd) then Some (heap s ! pd ! j) else None)"

text \<open>Writing fields of \<^verbatim>\<open>pd->ptes[j]\<close> through the pointer \<^verbatim>\<open>pte\<close>.\<close>

definition pte_update :: "nat \<Rightarrow> nat \<Rightarrow> (pte \<Rightarrow> pte) \<Rightarrow> vm_state \<Rightarrow> vm_state" where
  "pte_update pd j f s = s\<lparr>heap := (heap s)[pd := (heap s ! pd)[j := f (heap s ! pd ! j)]]\<rparr>"

definition zero_pte :: pte where
  "zero_pte = \<lparr>pte_valid = False, pte_rw = 0, pte_pfn = 0, pte_private = 0\<rparr>"

text \<open>
  \<^verbatim>\<open>page_dir_idx = vpn / NR_PTES_PER_PAGE\<close> and
  \<^verbatim>\<open>page_entry_idx = vpn - page_dir_idx * NR_PTES_PER_PAGE\<close>.
\<close>

definition page_dir_idx :: "vm_config \<Rightarrow> u32 \<Rightarrow> nat" where
  "page_dir_idx c vpn = unat vpn div NR_PTES_PER_PAGE c"

definition page_entry_idx :: "vm_config \<Rightarrow> u32 \<Rightarrow> nat" where
  "page_entry_idx c vpn = unat vpn - page_dir_idx c vpn * NR_PTES_PER_PAGE c"

text \<open>The loop of \<^verbatim>\<open>alloc_page\<close> over \<^verbatim>\<open>pfn = 0 .. NR_PAGEFRAMES-1\<close>: the first free frame.\<close>

fun find_free :: "u32 list \<Rightarrow> nat \<Rightarrow> nat option" where
  "find_free [] pfn = None"
| "find_free (m # ms) pfn = (if m = 0 then Some pfn else find_free ms (Suc pfn))"

text \<open>
  \<^verbatim>\<open>alloc_page\<close>.  Its \<^verbatim>\<open>malloc\<close> of a missing directory page is not followed by a
  \<^verbatim>\<open>memset\<close>, so the new page holds whatever the allocator hands back: the parameter
  \<open>junk\<close>.  The result is the returned frame number ((unsigned)-1 is the word \<open>- 1\<close>) and
  the new state; \<open>None\<close> stands for an access outside an array.
\<close>

definition alloc_page ::
  "vm_config \<Rightarrow> pte_directory \<Rightarrow> u32 \<Rightarrow> u32 \<Rightarrow> vm_state \<Rightarrow> (u32 \<times> vm_state) option" where
  "alloc_page c junk vpn rw s =
     (case find_free (mapcounts s) 0 of
        None \<Rightarrow> Some (- 1, s)
      | Some pfn \<Rightarrow>
          (let s1 = s\<lparr>mapcounts := (mapcounts s)[pfn := 1]\<rparr>;
               i = page_dir_idx c vpn;
               j = page_entry_idx c vpn
           in if i < length (cur_pdes s1) then
                (let (pd, s2) =
                   (case cur_pdes s1 ! i of
                      Some a \<Rightarrow> (a, s1)
                    | None \<Rightarrow> (length (heap s1), add_dir i junk s1))
                 in if pd < length (heap s2) \<and> j < length (heap s2 ! pd) then
                      Some (of_nat pfn,
                            pte_update pd j
                              (\<lambda>e. e\<lparr>pte_valid := True, pte_rw := rw, pte_pfn := of_nat pfn\<rparr>) s2)
                    else None)
              else None))"

text \<open>\<^verbatim>\<open>free_page\<close>\<close>

definition free_page :: "vm_config \<Rightarrow> u32 \<Rightarrow> vm_state \<Rightarrow> vm_state option" where
  "free_page c vpn s =
     (let i = page_dir_idx c vpn;
          j = page_entry_idx c vpn
      in if i < length (cur_pdes s) then
           (case cur_pdes s ! i of
              None \<Rightarrow> Some s
            | Some pd \<Rightarrow>
                (case pte_at s pd j of
                   None \<Rightarrow> None
                 | Some pte \<Rightarrow>
                     if pte_valid pte then
                       (if unat (pte_pfn pte) < length (mapcounts s) then
                          Some (pte_update pd j
                                  (\<lambda>e. e\<lparr>pte_valid := False, pte_rw := 0, pte_pfn := 0\<rparr>)
                                  (s\<lparr>mapcounts := (mapcounts s)[unat (pte_pfn pte) :=
                                                    mapcounts s ! unat (pte_pfn pte) - 1],
                                     tlb := map (\<lambda>t. if tlb_valid t \<and> tlb_pfn t = pte_pfn pte
                                                     then t\<lparr>tlb_valid := False, tlb_rw := 0, tlb_pfn := 0\<rparr>
                                                     else t) (tlb s)\<rparr>))
                        else None)
                     else Some s))
         else None)"

section \<open>The page-fault handler\<close>

text \<open>
  \<^verbatim>\<open>handle_page_fault\<close>.  A missing directory page is allocated and zeroed
  (\<^verbatim>\<open>memset\<close>) first, so the \<^verbatim>\<open>malloc\<close> inside \<^verbatim>\<open>alloc_page\<close> is never reached from here and
  the page passed for it is immaterial.  After \<^verbatim>\<open>alloc_page(vpn, 3)\<close> the pointer \<^verbatim>\<open>pte\<close>
  still names the entry \<^verbatim>\<open>alloc_page\<close> has just written.
\<close>

definition handle_page_fault ::
  "vm_config \<Rightarrow> u32 \<Rightarrow> u32 \<Rightarrow> vm_state \<Rightarrow> (bool \<times> vm_state) option" where
  "handle_page_fault c vpn rw s =
     (let i = page_dir_idx c vpn;
          j = page_entry_idx c vpn
      in if i < length (cur_pdes s) then
           (let (pd, s1) =
              (case cur_pdes s ! i of
                 Some a \<Rightarrow> (a, s)
               | None \<Rightarrow>
                   (length (heap s), add_dir i (replicate (NR_PTES_PER_PAGE c) zero_pte) s))
            in case pte_at s1 pd j of
                 None \<Rightarrow> None
               | Some pte \<Rightarrow>
                   if \<not> pte_valid pte then
                     (case alloc_page c [] vpn rw s1 of
                        None \<Rightarrow> None
                      | Some (r, s2) \<Rightarrow> Some (r \<noteq> - 1, s2))
                   else if pte_rw pte \<noteq> rw \<and> rw AND ACCESS_WRITE \<noteq> 0 then
                     (if pte_rw pte AND ACCESS_READ \<noteq> 0 \<and> pte_private pte AND ACCESS_WRITE \<noteq> 0 then
                        (if unat (pte_pfn pte) < length (mapcounts s1) then
                           (if 1 < mapcounts s1 ! unat (pte_pfn pte) then
                              (let old_pfn = pte_pfn pte
                               in case alloc_page c [] vpn 3 s1 of
                                    None \<Rightarrow> None
                                  | Some (new_pfn, s2) \<Rightarrow>
                                      Some (True,
                                        pte_update pd j (\<lambda>e. e\<lparr>pte_pfn := new_pfn\<rparr>)
                                          (pte_update pd j (\<lambda>e. e\<lparr>pte_rw := pte_rw e OR ACCESS_WRITE\<rparr>)
                                            (s2\<lparr>mapcounts := (mapcounts s2)[unat old_pfn :=
                                                   mapcounts s2 ! unat old_pfn - 1]\<rparr>))))
                            else
                              Some (True,
                                pte_update pd j (\<lambda>e. e\<lparr>pte_rw := pte_rw e OR ACCESS_WRITE\<rparr>) s1))
                         else None)
                      else Some (False, s1))
                   else Some (True, s1))
         else None)"

section \<open>Switching and forking\<close>

text \<open>\<^verbatim>\<open>list_for_each_entry\<close> over the ready queue: the first process with the wanted pid.\<close>

fun find_pid :: "process list \<Rightarrow> nat list \<Rightarrow> u32 \<Rightarrow> nat option" where
  "find_pid ps [] p = None"
| "find_pid ps (a # as) p = (if pid (ps ! a) = p then Some a else find_pid ps as p)"

text \<open>
  The inner loop of the fork, over the entries \<open>j\<close> of one directory page of the parent:
  it yields the parent's page as the loop leaves it, the child's freshly written page and the
  frame counts.  \<open>None\<close> stands for \<^verbatim>\<open>mapcounts[pfn]++\<close> outside the array.
\<close>

fun fork_ptes :: "pte list \<Rightarrow> u32 list \<Rightarrow> (pte list \<times> pte list \<times> u32 list) option" where
  "fork_ptes [] mc = Some ([], [], mc)"
| "fork_ptes (e # es) mc =
     (if pte_valid e then
        (if unat (pte_pfn e) < length mc then
           (let cur1 = (if pte_private e = 0 then e\<lparr>pte_private := pte_rw e\<rparr> else e);
                nxt1 = (if pte_private e = 0 then e\<lparr>pte_valid := True, pte_private := pte_rw cur1\<rparr>
                        else e\<lparr>pte_valid := True\<rparr>);
                cur2 = cur1\<lparr>pte_rw := ACCESS_READ\<rparr>;
                nxt2 = nxt1\<lparr>pte_rw := ACCESS_READ, pte_pfn := pte_pfn cur2\<rparr>;
                mc1 = mc[unat (pte_pfn nxt2) := mc ! unat (pte_pfn nxt2) + 1]
            in case fork_ptes es mc1 of
                 None \<Rightarrow> None
               | Some (ps, cs, mc2) \<Rightarrow> Some (cur2 # ps, nxt2 # cs, mc2))
         else None)
      else
        (case fork_ptes es mc of
           None \<Rightarrow> None
         | Some (ps, cs, mc2) \<Rightarrow> Some (e # ps, e # cs, mc2)))"

text \<open>
  The outer loop, over the directory slots \<open>i\<close> of the parent: for a slot that is not
  \<^verbatim>\<open>NULL\<close> the child gets a new page from \<^verbatim>\<open>malloc\<close> (the next address of the store).  It
  yields the child's \<^verbatim>\<open>pdes\<close>, the store and the frame counts.
\<close>

fun fork_pdes ::
  "nat option list \<Rightarrow> pte_directory list \<Rightarrow> u32 list \<Rightarrow>
     (nat option list \<times> pte_directory list \<times> u32 list) option" where
  "fork_pdes [] h mc = Some ([], h, mc)"
| "fork_pdes (None # ds) h mc =
     (case fork_pdes ds h mc of
        None \<Rightarrow> None
      | Some (cs, h', mc') \<Rightarrow> Some (None # cs, h', mc'))"
| "fork_pdes (Some a # ds) h mc =
     (if a < length h then
        (case fork_ptes (h ! a) mc of
           None \<Rightarrow> None
         | Some (pp, cp, mc1) \<Rightarrow>
             (case fork_pdes ds (h[a := pp] @ [cp]) mc1 of
                None \<Rightarrow> None
              | Some (cs, h', mc') \<Rightarrow> Some (Some (length h) # cs, h', mc')))
      else None)"

text \<open>The flush loop at the end of \<^verbatim>\<open>switch_process\<close>: it leaves at the first invalid entry.\<close>

fun flush_tlb :: "tlb_entry list \<Rightarrow> tlb_entry list" where
  "flush_tlb [] = []"
| "flush_tlb (e # es) =
     (if \<not> tlb_valid e then e # es
      else e\<lparr>tlb_valid := False, tlb_rw := 0, tlb_vpn := 0, tlb_pfn := 0, tlb_private := 0\<rparr>
             # flush_tlb es)"

text \<open>
  The common tail of \<^verbatim>\<open>switch_process\<close>: flush, \<^verbatim>\<open>list_add_tail(&current->list, &processes)\<close>,
  \<^verbatim>\<open>current = next\<close>, \<^verbatim>\<open>ptbr = &current->pagetable\<close>.
\<close>

definition switch_to :: "nat \<Rightarrow> vm_state \<Rightarrow> vm_state" where
  "switch_to next s =
     s\<lparr>tlb := flush_tlb (tlb s),
       processes := processes s @ [current s],
       current := next,
       ptbr := next\<rparr>"

text \<open>
  \<^verbatim>\<open>switch_process\<close>.  A process found in the queue is unlinked (\<^verbatim>\<open>list_del_init\<close>);
  otherwise a new \<^verbatim>\<open>struct process\<close> is allocated (the next address of \<open>procs\<close>) and given
  copies of the parent's pages.
\<close>

definition switch_process :: "vm_config \<Rightarrow> u32 \<Rightarrow> vm_state \<Rightarrow> vm_state option" where
  "switch_process c p s =
     (case find_pid (procs s) (processes s) p of
        Some next \<Rightarrow> Some (switch_to next (s\<lparr>processes := remove1 next (processes s)\<rparr>))
      | None \<Rightarrow>
          (case fork_pdes (cur_pdes s) (heap s) (mapcounts s) of
             None \<Rightarrow> None
           | Some (cs, h', mc') \<Rightarrow>
               Some (switch_to (length (procs s))
                       (s\<lparr>procs := procs s @ [\<lparr>pid = p, pagetable = \<lparr>pdes = cs\<rparr>\<rparr>],
                          heap := h',
                          mapcounts := mc'\<rparr>))))"

section \<open>Runs of the simulator\<close>

text \<open>
  Modelled from the spec: the framework's set-up (\<^verbatim>\<open>vm.c\<close>) is not among the sources.
  At simulation start one process runs, nothing is mapped, the ready queue is empty and the
  TLB and the frame counts are zeroed.
\<close>

definition zero_tlb :: tlb_entry where
  "zero_tlb = \<lparr>tlb_valid = False, tlb_rw = 0, tlb_vpn = 0, tlb_pfn = 0, tlb_private = 0\<rparr>"

definition init_state :: "vm_config \<Rightarrow> vm_state" where
  "init_state c =
     \<lparr>heap = [],
      procs = [\<lparr>pid = 0, pagetable = \<lparr>pdes = replicate (NR_PDES_PER_PAGE c) None\<rparr>\<rparr>],
      processes = [], current = 0, ptbr = 0,
      tlb = replicate (NR_TLB_ENTRIES c) zero_tlb,
      mapcounts = replicate (NR_PAGEFRAMES c) 0\<rparr>"

text \<open>
  The calls the framework makes into \<^verbatim>\<open>pa3.c\<close>, and a run as the list of them.  A run
  is \<open>None\<close> when a call leaves an array.
\<close>

datatype event =
    Alloc pte_directory u32 u32
  | Free u32
  | Fault u32 u32
  | Switch u32
  | Insert u32 u32 u32

fun step :: "vm_config \<Rightarrow> event \<Rightarrow> vm_state \<Rightarrow> vm_state option" where
  "step c (Alloc junk vpn rw) s = map_option snd (alloc_page c junk vpn rw s)"
| "step c (Free vpn) s = free_page c vpn s"
| "step c (Fault vpn rw) s = map_option snd (handle_page_fault c vpn rw s)"
| "step c (Switch p) s = switch_process c p s"
| "step c (Insert vpn rw pfn) s = Some (insert_tlb vpn rw pfn s)"

fun run :: "vm_config \<Rightarrow> event list \<Rightarrow> vm_state \<Rightarrow> vm_state option" where
  "run c [] s = Some s"
| "run c (e # es) s = (case step c e s of None \<Rightarrow> None | Some s' \<Rightarrow> run c es s')"

section \<open>Well-formed states\<close>

text \<open>
  A virtual page number is in range when its directory index stays inside \<^verbatim>\<open>pdes\<close>.
\<close>

definition in_range :: "vm_config \<Rightarrow> u32 \<Rightarrow> bool" where
  "in_range c vpn \<longleftrightarrow> unat vpn < NR_PDES_PER_PAGE c * NR_PTES_PER_PAGE c"

text \<open>
  The entry of process \<open>p\<close> for a page, as a page-table walk finds it: \<open>None\<close> when the
  directory page is missing.
\<close>

definition proc_pte :: "vm_config \<Rightarrow> vm_state \<Rightarrow> nat \<Rightarrow> u32 \<Rightarrow> pte option" where
  "proc_pte c s p vpn =
     (let ds = pdes (pagetable (procs s ! p))
      in if page_dir_idx c vpn < length ds then
           (case ds ! page_dir_idx c vpn of
              None \<Rightarrow> None
            | Some pd \<Rightarrow> pte_at s pd (page_entry_idx c vpn))
         else None)"

definition cur_pte :: "vm_config \<Rightarrow> vm_state \<Rightarrow> u32 \<Rightarrow> pte option" where
  "cur_pte c s vpn = proc_pte c s (current s) vpn"

text \<open>
  The live processes are the running one and those in the ready queue; \<open>ptrs\<close> lists
  the pointers of a \<^verbatim>\<open>pdes\<close> array that are not \<^verbatim>\<open>NULL\<close>, and \<open>owned\<close> the directory
  pages the page tables of the live processes point at.
\<close>

definition live :: "vm_state \<Rightarrow> nat list" where
  "live s = current s # processes s"

definition ptrs :: "nat option list \<Rightarrow> nat list" where
  "ptrs ds = map the (filter (\<lambda>d. d \<noteq> None) ds)"

definition pages_of :: "vm_state \<Rightarrow> nat \<Rightarrow> nat list" where
  "pages_of s p = ptrs (pdes (pagetable (procs s ! p)))"

definition owned :: "vm_state \<Rightarrow> nat list" where
  "owned s = concat (map (pages_of s) (live s))"

text \<open>
  The sizes: a directory page is not empty, and a frame number fits an \<^verbatim>\<open>unsigned int\<close>
  without reaching (unsigned)-1, the value \<^verbatim>\<open>alloc_page\<close> returns for failure.
\<close>

definition config_ok :: "vm_config \<Rightarrow> bool" where
  "config_ok c \<longleftrightarrow> 0 < NR_PTES_PER_PAGE c \<and> NR_PAGEFRAMES c < 2 ^ 32 - 1"

text \<open>
  The shape the C program keeps: the arrays have their declared sizes, the running process
  is not linked into the queue and no process is linked twice, every pointer of a live
  process names an object, and no directory page is pointed at twice (each page table owns
  its pages).
\<close>

definition state_ok :: "vm_config \<Rightarrow> vm_state \<Rightarrow> bool" where
  "state_ok c s \<longleftrightarrow>
     config_ok c \<and>
     length (mapcounts s) = NR_PAGEFRAMES c \<and>
     length (tlb s) = NR_TLB_ENTRIES c \<and>
     distinct (live s) \<and>
     (\<forall>p \<in> set (live s). p < length (procs s) \<and>
        length (pdes (pagetable (procs s ! p))) = NR_PDES_PER_PAGE c) \<and>
     distinct (owned s) \<and>
     (\<forall>a \<in> set (owned s). a < length (heap s) \<and> length (heap s ! a) = NR_PTES_PER_PAGE c)"

text \<open>What \<^verbatim>\<open>alloc_page\<close> writes into an entry.\<close>

definition map_pte :: "u32 \<Rightarrow> u32 \<Rightarrow> pte \<Rightarrow> pte" where
  "map_pte rw pfn e = e\<lparr>pte_valid := True, pte_rw := rw, pte_pfn := pfn\<rparr>"

text \<open>Every valid entry of a live process names a frame of the machine.\<close>

definition frames_ok :: "vm_config \<Rightarrow> vm_state \<Rightarrow> bool" where
  "frames_ok c s \<longleftrightarrow>
     (\<forall>a \<in> set (owned s). \<forall>e \<in> set (heap s ! a). pte_valid e \<longrightarrow> unat (pte_pfn e) < NR_PAGEFRAMES c)"

text \<open>
  All entries of the page table of process \<open>p\<close>, and the number of valid entries in a list
  that map frame \<open>f\<close>.
\<close>

definition entries_of :: "vm_state \<Rightarrow> nat \<Rightarrow> pte list" where
  "entries_of s p = concat (map ((!) (heap s)) (pages_of s p))"

definition frame_refs :: "nat \<Rightarrow> pte list \<Rightarrow> nat" where
  "frame_refs f es = length (filter (\<lambda>e. pte_valid e \<and> unat (pte_pfn e) = f) es)"

subsection \<open>Reference counts\<close>

text \<open>
  The number of valid page-table entries, over all live processes, that map frame \<open>f\<close>,
  and the invariant: every frame count is that number as an \<^verbatim>\<open>unsigned int\<close>.
\<close>

definition refcount :: "vm_state \<Rightarrow> nat \<Rightarrow> nat" where
  "refcount s f = (\<Sum>p\<leftarrow>live s. frame_refs f (entries_of s p))"

definition counts_ok :: "vm_config \<Rightarrow> vm_state \<Rightarrow> bool" where
  "counts_ok c s \<longleftrightarrow> (\<forall>f < NR_PAGEFRAMES c. mapcounts s ! f = of_nat (refcount s f))"

definition vm_inv :: "vm_config \<Rightarrow> vm_state \<Rightarrow> bool" where
  "vm_inv c s \<longleftrightarrow> state_ok c s \<and> frames_ok c s \<and> counts_ok c s"

text \<open>
  The states the simulator reaches from its initial state by calls with pages in range.
  \<^verbatim>\<open>alloc_page\<close> is called for a page the running process does not map, and the memory
  \<^verbatim>\<open>malloc\<close> hands it for a directory page holds no valid entry; a call of
  \<^verbatim>\<open>handle_page_fault\<close> that changes the frame counts finds a free frame.  The framework's
  TLB insertions are steps as well.
\<close>

inductive reachable :: "vm_config \<Rightarrow> vm_state \<Rightarrow> bool" for c :: vm_config where
  init: "reachable c (init_state c)"
| alloc: "\<lbrakk>reachable c s; in_range c vpn;
           length junk = NR_PTES_PER_PAGE c; \<forall>e \<in> set junk. \<not> pte_valid e;
           \<forall>e. cur_pte c s vpn = Some e \<longrightarrow> \<not> pte_valid e;
           alloc_page c junk vpn rw s = Some (pfn, s')\<rbrakk> \<Longrightarrow> reachable c s'"
| free: "\<lbrakk>reachable c s; in_range c vpn; free_page c vpn s = Some s'\<rbrakk> \<Longrightarrow> reachable c s'"
| fault: "\<lbrakk>reachable c s; in_range c vpn;
           handle_page_fault c vpn rw s = Some (res, s');
           0 \<in> set (mapcounts s) \<or> mapcounts s' = mapcounts s\<rbrakk> \<Longrightarrow> reachable c s'"
| switch: "\<lbrakk>reachable c s; switch_process c p s = Some s'\<rbrakk> \<Longrightarrow> reachable c s'"
| insert: "reachable c s \<Longrightarrow> reachable c (insert_tlb vpn rw pfn s)"

subsection \<open>What a fork computes\<close>

text \<open>
  The loops of the fork in closed form, for the proofs: the entry both processes hold
  afterwards, the frame counts after one increment per valid entry, and the child's
  \<^verbatim>\<open>pdes\<close> when the store has \<open>n\<close> objects before the fork.  Lemmas \<open>fork_ptes_Some\<close> and
  \<open>fork_pdes_Some\<close> relate them to the loops.
\<close>

definition cow_share :: "pte \<Rightarrow> pte" where
  "cow_share e =
     (if pte_valid e then
        e\<lparr>pte_private := (if pte_private e = 0 then pte_rw e else pte_private e),
          pte_rw := ACCESS_READ\<rparr>
      else e)"

fun bump :: "pte list \<Rightarrow> u32 list \<Rightarrow> u32 list" where
  "bump [] mc = mc"
| "bump (e # es) mc =
     bump es (if pte_valid e then mc[unat (pte_pfn e) := mc ! unat (pte_pfn e) + 1] else mc)"

fun child_pdes :: "nat option list \<Rightarrow> nat \<Rightarrow> nat option list" where
  "child_pdes [] n = []"
| "child_pdes (None # ds) n = None # child_pdes ds n"
| "child_pdes (Some a # ds) n = Some n # child_pdes ds (Suc n)"

subsection \<open>A small machine and some of its states\<close>

text \<open>Two frames, two directory slots of two entries each, two TLB entries.\<close>

definition c2 :: vm_config where
  "c2 = \<lparr>NR_PAGEFRAMES = 2, NR_PTES_PER_PAGE = 2, NR_PDES_PER_PAGE = 2, NR_TLB_ENTRIES = 2\<rparr>"

text \<open>
  Pages 0 and 1 were mapped and cached, then page 0 was freed: the first TLB slot is
  invalid, the second still caches page 1.
\<close>

definition ex_hole :: vm_state where
  "ex_hole =
     \<lparr>heap = [[\<lparr>pte_valid = False, pte_rw = 0, pte_pfn = 0, pte_private = 0\<rparr>,
               \<lparr>pte_valid = True, pte_rw = 3, pte_pfn = 1, pte_private = 0\<rparr>]],
      procs = [\<lparr>pid = 0, pagetable = \<lparr>pdes = [Some 0, None]\<rparr>\<rparr>],
      processes = [], current = 0, ptbr = 0,
      tlb = [\<lparr>tlb_valid = False, tlb_rw = 0, tlb_vpn = 0, tlb_pfn = 0, tlb_private = 0\<rparr>,
             \<lparr>tlb_valid = True, tlb_rw = 3, tlb_vpn = 1, tlb_pfn = 1, tlb_private = 0\<rparr>],
      mapcounts = [0, 1]\<rparr>"

text \<open>Page 0 was mapped read-only and cached.\<close>

definition ex_cached_ro :: vm_state where
  "ex_cached_ro =
     \<lparr>heap = [[\<lparr>pte_valid = True, pte_rw = 1, pte_pfn = 0, pte_private = 0\<rparr>,
               \<lparr>pte_valid = False, pte_rw = 0, pte_pfn = 0, pte_private = 0\<rparr>]],
      procs = [\<lparr>pid = 0, pagetable = \<lparr>pdes = [Some 0, None]\<rparr>\<rparr>],
      processes = [], current = 0, ptbr = 0,
      tlb = [\<lparr>tlb_valid = True, tlb_rw = 1, tlb_vpn = 0, tlb_pfn = 0, tlb_private = 0\<rparr>,
             \<lparr>tlb_valid = False, tlb_rw = 0, tlb_vpn = 0, tlb_pfn = 0, tlb_private = 0\<rparr>],
      mapcounts = [1, 0]\<rparr>"

text \<open>Process 0 mapped pages 0 and 1 read-write; it runs alone.\<close>

definition ex_mapped :: vm_state where
  "ex_mapped =
     \<lparr>heap = [[\<lparr>pte_valid = True, pte_rw = 3, pte_pfn = 0, pte_private = 0\<rparr>,
               \<lparr>pte_valid = True, pte_rw = 3, pte_pfn = 1, pte_private = 0\<rparr>]],
      procs = [\<lparr>pid = 0, pagetable = \<lparr>pdes = [Some 0, None]\<rparr>\<rparr>],
      processes = [], current = 0, ptbr = 0,
      tlb = [\<lparr>tlb_valid = False, tlb_rw = 0, tlb_vpn = 0, tlb_pfn = 0, tlb_private = 0\<rparr>,
             \<lparr>tlb_valid = False, tlb_rw = 0, tlb_vpn = 0, tlb_pfn = 0, tlb_private = 0\<rparr>],
      mapcounts = [1, 1]\<rparr>"

text \<open>
  Process 0 mapped pages 0 and 1 read-write and forked process 7, which runs: both
  frames are shared and none is free.
\<close>

definition ex_full :: vm_state where
  "ex_full =
     \<lparr>heap = [[\<lparr>pte_valid = True, pte_rw = 1, pte_pfn = 0, pte_private = 3\<rparr>,
               \<lparr>pte_valid = True, pte_rw = 1, pte_pfn = 1, pte_private = 3\<rparr>],
              [\<lparr>pte_valid = True, pte_rw = 1, pte_pfn = 0, pte_private = 3\<rparr>,
               \<lparr>pte_valid = True, pte_rw = 1, pte_pfn = 1, pte_private = 3\<rparr>]],
      procs = [\<lparr>pid = 0, pagetable = \<lparr>pdes = [Some 0, None]\<rparr>\<rparr>,
               \<lparr>pid = 7, pagetable = \<lparr>pdes = [Some 1, None]\<rparr>\<rparr>],
      processes = [0], current = 1, ptbr = 1,
      tlb = [\<lparr>tlb_valid = False, tlb_rw = 0, tlb_vpn = 0, tlb_pfn = 0, tlb_private = 0\<rparr>,
             \<lparr>tlb_valid = False, tlb_rw = 0, tlb_vpn = 0, tlb_pfn = 0, tlb_private = 0\<rparr>],
      mapcounts = [2, 2]\<rparr>"

text \<open>
  Process 0 mapped page 0 read-write and forked process 7, which runs (\<open>ex_shared\<close>);
  process 7 then wrote to the page and got frame 1 (\<open>ex_copied\<close>); process 0 runs again
  (\<open>ex_last\<close>).  In \<open>ex_norw\<close> process 7 has instead freed page 0 and mapped it again with
  access 0.
\<close>

definition ex_shared :: vm_state where
  "ex_shared =
     \<lparr>heap = [[\<lparr>pte_valid = True, pte_rw = 1, pte_pfn = 0, pte_private = 3\<rparr>,
               \<lparr>pte_valid = False, pte_rw = 0, pte_pfn = 0, pte_private = 0\<rparr>],
              [\<lparr>pte_valid = True, pte_rw = 1, pte_pfn = 0, pte_private = 3\<rparr>,
               \<lparr>pte_valid = False, pte_rw = 0, pte_pfn = 0, pte_private = 0\<rparr>]],
      procs = [\<lparr>pid = 0, pagetable = \<lparr>pdes = [Some 0, None]\<rparr>\<rparr>,
               \<lparr>pid = 7, pagetable = \<lparr>pdes = [Some 1, None]\<rparr>\<rparr>],
      processes = [0], current = 1, ptbr = 1,
      tlb = [\<lparr>tlb_valid = False, tlb_rw = 0, tlb_vpn = 0, tlb_pfn = 0, tlb_private = 0\<rparr>,
             \<lparr>tlb_valid = False, tlb_rw = 0, tlb_vpn = 0, tlb_pfn = 0, tlb_private = 0\<rparr>],
      mapcounts = [2, 0]\<rparr>"

definition ex_copied :: vm_state where
  "ex_copied =
     ex_shared\<lparr>heap := [[\<lparr>pte_valid = True, pte_rw = 1, pte_pfn = 0, pte_private = 3\<rparr>,
                          \<lparr>pte_valid = False, pte_rw = 0, pte_pfn = 0, pte_private = 0\<rparr>],
                         [\<lparr>pte_valid = True, pte_rw = 3, pte_pfn = 1, pte_private = 3\<rparr>,
                          \<lparr>pte_valid = False, pte_rw = 0, pte_pfn = 0, pte_private = 0\<rparr>]],
               mapcounts := [1, 1]\<rparr>"

definition ex_last :: vm_state where
  "ex_last = ex_copied\<lparr>processes := [1], current := 0, ptbr := 0\<rparr>"

definition ex_norw :: vm_state where
  "ex_norw =
     ex_shared\<lparr>heap := [[\<lparr>pte_valid = True, pte_rw = 1, pte_pfn = 0, pte_private = 3\<rparr>,
                          \<lparr>pte_valid = False, pte_rw = 0, pte_pfn = 0, pte_private = 0\<rparr>],
                         [\<lparr>pte_valid = True, pte_rw = 0, pte_pfn = 1, pte_private = 3\<rparr>,
                          \<lparr>pte_valid = False, pte_rw = 0, pte_pfn = 0, pte_private = 0\<rparr>]],
               mapcounts := [1, 1]\<rparr>"

text \<open>
  Process 0 mapped page 0 read-write (\<open>ex_one\<close>); in \<open>ex_leak\<close> it has then called
  \<^verbatim>\<open>alloc_page\<close> for page 0 a second time.
\<close>

definition ex_one :: vm_state where
  "ex_one =
     \<lparr>heap = [[\<lparr>pte_valid = True, pte_rw = 3, pte_pfn = 0, pte_private = 0\<rparr>,
               \<lparr>pte_valid = False, pte_rw = 0, pte_pfn = 0, pte_private = 0\<rparr>]],
      procs = [\<lparr>pid = 0, pagetable = \<lparr>pdes = [Some 0, None]\<rparr>\<rparr>],
      processes = [], current = 0, ptbr = 0,
      tlb = [\<lparr>tlb_valid = False, tlb_rw = 0, tlb_vpn = 0, tlb_pfn = 0, tlb_private = 0\<rparr>,
             \<lparr>tlb_valid = False, tlb_rw = 0, tlb_vpn = 0, tlb_pfn = 0, tlb_private = 0\<rparr>],
      mapcounts = [1, 0]\<rparr>"

definition ex_leak :: vm_state where
  "ex_leak = ex_one\<lparr>heap := [[\<lparr>pte_valid = True, pte_rw = 3, pte_pfn = 1, pte_private = 0\<rparr>,
                                \<lparr>pte_valid = False, pte_rw = 0, pte_pfn = 0, pte_private = 0\<rparr>]],
                     mapcounts := [1, 1]\<rparr>"

text \<open>
  The first process, with nothing mapped, switched to its own pid 0: its child, which
  carries pid 0 as well, runs and the first process waits in the queue.
\<close>

definition ex_twin :: vm_state where
  "ex_twin =
     \<lparr>heap = [],
      procs = [\<lparr>pid = 0, pagetable = \<lparr>pdes = [None, None]\<rparr>\<rparr>,
               \<lparr>pid = 0, pagetable = \<lparr>pdes = [None, None]\<rparr>\<rparr>],
      processes = [0], current = 1, ptbr = 1,
      tlb = [\<lparr>tlb_valid = False, tlb_rw = 0, tlb_vpn = 0, tlb_pfn = 0, tlb_private = 0\<rparr>,
             \<lparr>tlb_valid = False, tlb_rw = 0, tlb_vpn = 0, tlb_pfn = 0, tlb_private = 0\<rparr>],
      mapcounts = [0, 0]\<rparr>"

section \<open>Evaluating the model\<close>

lemma replicate_two: "replicate 2 x = [x, x]"
  by (simp add: numeral_2_eq_2)

lemmas vm_eval =
  handle_page_fault_def alloc_page_def free_page_def switch_process_def switch_to_def
  insert_tlb_def lookup_tlb_def pte_at_def pte_update_def add_dir_def set_cur_pde_def cur_pdes_def
  page_dir_idx_def page_entry_idx_def zero_pte_def zero_tlb_def init_state_def c2_def
  ACCESS_READ_def ACCESS_WRITE_def replicate_two Let_def

lemma ex_hole_reached:
  "run c2 [Fault 0 3, Insert 0 3 0, Fault 1 3, Insert 1 3 1, Free 0] (init_state c2) = Some ex_hole"
  by (simp add: vm_eval ex_hole_def)

lemma ex_cached_ro_reached:
  "run c2 [Fault 0 ACCESS_READ, Insert 0 ACCESS_READ 0] (init_state c2) = Some ex_cached_ro"
  by (simp add: vm_eval ex_cached_ro_def)

lemma ex_full_reached:
  "run c2 [Fault 0 3, Fault 1 3, Switch 7] (init_state c2) = Some ex_full"
  by (simp add: vm_eval ex_full_def)

lemmas ex_defs = ex_shared_def ex_copied_def ex_last_def ex_norw_def ex_full_def ex_mapped_def
  ex_hole_def ex_cached_ro_def ex_one_def ex_leak_def

lemmas count_eval = refcount_def entries_of_def frame_refs_def live_def pages_of_def ptrs_def

lemma ex_shared_reached: "run c2 [Fault 0 3, Switch 7] (init_state c2) = Some ex_shared"
  by (simp add: vm_eval ex_defs)

lemma ex_last_reached:
  "run c2 [Fault 0 3, Switch 7, Fault 0 ACCESS_WRITE, Switch 0] (init_state c2) = Some ex_last"
  by (simp add: vm_eval ex_defs)

lemma ex_norw_reached:
  "run c2 [Fault 0 3, Switch 7, Free 0, Alloc [] 0 0] (init_state c2) = Some ex_norw"
  by (simp add: vm_eval ex_defs)

section \<open>Basic facts\<close>

lemmas ok_eval = state_ok_def frames_ok_def config_ok_def live_def owned_def pages_of_def
  ptrs_def in_range_def cur_pte_def proc_pte_def

lemma ex_hole_ok: "state_ok c2 ex_hole"
  by (simp add: ok_eval vm_eval ex_hole_def)

lemma ex_full_ok: "state_ok c2 ex_full"
  by (simp add: ok_eval vm_eval ex_full_def)

lemma ex_shared_ok: "state_ok c2 ex_shared \<and> frames_ok c2 ex_shared"
  by (simp add: ok_eval vm_eval ex_defs)

lemma ex_last_ok: "state_ok c2 ex_last \<and> frames_ok c2 ex_last"
  by (simp add: ok_eval vm_eval ex_defs)

lemma ex_mapped_ok: "state_ok c2 ex_mapped \<and> frames_ok c2 ex_mapped"
  by (simp add: ok_eval vm_eval ex_mapped_def)

lemma ex_mapped_fork: "switch_process c2 7 ex_mapped = Some ex_full"
  by (simp add: vm_eval ex_mapped_def ex_full_def)

lemma in_range_dir: "config_ok c \<Longrightarrow> in_range c vpn \<Longrightarrow> page_dir_idx c vpn < NR_PDES_PER_PAGE c"
  by (simp add: in_range_def page_dir_idx_def config_ok_def less_mult_imp_div_less)

lemma in_range_entry: "config_ok c \<Longrightarrow> page_entry_idx c vpn < NR_PTES_PER_PAGE c"
  by (simp add: page_entry_idx_def page_dir_idx_def config_ok_def minus_div_mult_eq_mod)

lemma state_ok_cur: "state_ok c s \<Longrightarrow> current s < length (procs s) \<and> length (cur_pdes s) = NR_PDES_PER_PAGE c"
  by (simp add: state_ok_def live_def cur_pdes_def)

lemma ptrs_simps [simp]:
  "ptrs [] = []" "ptrs (None # ds) = ptrs ds" "ptrs (Some a # ds) = a # ptrs ds"
  by (simp_all add: ptrs_def)

lemma ptrs_mem: "i < length ds \<Longrightarrow> ds ! i = Some a \<Longrightarrow> a \<in> set (ptrs ds)"
  unfolding ptrs_def by (force simp: in_set_conv_nth)

lemma state_ok_cur_page:
  assumes "state_ok c s" "i < NR_PDES_PER_PAGE c" "cur_pdes s ! i = Some a"
  shows "a < length (heap s) \<and> length (heap s ! a) = NR_PTES_PER_PAGE c"
proof -
  have "i < length (cur_pdes s)" using assms state_ok_cur by simp
  then have "a \<in> set (pages_of s (current s))"
    using assms(3) unfolding pages_of_def cur_pdes_def by (rule ptrs_mem)
  then have "a \<in> set (owned s)" by (simp add: owned_def live_def)
  then show ?thesis using assms(1) by (simp add: state_ok_def)
qed

lemma find_free_None: "find_free ms k = None \<longleftrightarrow> 0 \<notin> set ms"
  by (induction ms arbitrary: k) auto

lemma find_free_Some:
  "find_free ms k = Some f \<longleftrightarrow>
     k \<le> f \<and> f - k < length ms \<and> ms ! (f - k) = 0 \<and> (\<forall>g < f - k. ms ! g \<noteq> 0)"
proof (induction ms arbitrary: k)
  case Nil
  then show ?case by simp
next
  case (Cons m ms)
  show ?case
  proof (cases "m = 0")
    case True
    then show ?thesis by (cases "f - k") auto
  next
    case False
    have "find_free (m # ms) k = Some f \<longleftrightarrow> find_free ms (Suc k) = Some f"
      using False by simp
    also have "\<dots> \<longleftrightarrow> Suc k \<le> f \<and> f - Suc k < length ms \<and> ms ! (f - Suc k) = 0 \<and>
        (\<forall>g < f - Suc k. ms ! g \<noteq> 0)"
      by (rule Cons.IH)
    also have "\<dots> \<longleftrightarrow> k \<le> f \<and> f - k < length (m # ms) \<and> (m # ms) ! (f - k) = 0 \<and>
        (\<forall>g < f - k. (m # ms) ! g \<noteq> 0)"
    proof (cases "f - k")
      case 0
      then show ?thesis using False by auto
    next
      case (Suc d)
      then have fk: "f - Suc k = d" "k \<le> f" "Suc k \<le> f" by auto
      have "(\<forall>g < Suc d. (m # ms) ! g \<noteq> 0) \<longleftrightarrow> (\<forall>g < d. ms ! g \<noteq> 0)"
        using False by (auto simp: less_Suc_eq_0_disj)
      then show ?thesis using Suc fk by simp
    qed
    finally show ?thesis .
  qed
qed

lemma find_free_first:
  "f < length ms \<Longrightarrow> ms ! f = 0 \<Longrightarrow> \<forall>g < f. ms ! g \<noteq> 0 \<Longrightarrow> find_free ms 0 = Some f"
  by (simp add: find_free_Some)

lemma alloc_page_full:
  assumes "0 \<notin> set (mapcounts s)"
  shows "alloc_page c junk vpn rw s = Some (- 1, s)"
proof -
  have "find_free (mapcounts s) 0 = None" using assms by (simp add: find_free_None)
  then show ?thesis by (simp add: alloc_page_def)
qed

lemma alloc_page_present:
  assumes "state_ok c s" "in_range c vpn" "find_free (mapcounts s) 0 = Some f"
    and "cur_pdes s ! page_dir_idx c vpn = Some pd"
  shows "alloc_page c junk vpn rw s =
     Some (of_nat f,
       s\<lparr>mapcounts := (mapcounts s)[f := 1],
         heap := (heap s)[pd := (heap s ! pd)[page_entry_idx c vpn :=
                    map_pte rw (of_nat f) (heap s ! pd ! page_entry_idx c vpn)]]\<rparr>)"
proof -
  have cfg: "config_ok c" using assms(1) by (simp add: state_ok_def)
  have i: "page_dir_idx c vpn < length (cur_pdes s)"
    using in_range_dir[OF cfg assms(2)] state_ok_cur[OF assms(1)] by simp
  have pg: "pd < length (heap s) \<and> length (heap s ! pd) = NR_PTES_PER_PAGE c"
    using state_ok_cur_page[OF assms(1) _ assms(4)] in_range_dir[OF cfg assms(2)] by simp
  show ?thesis
    using assms(3,4) i pg in_range_entry[OF cfg, of vpn]
    by (simp add: alloc_page_def Let_def cur_pdes_def pte_update_def map_pte_def)
qed

lemma alloc_page_absent:
  assumes "state_ok c s" "in_range c vpn" "find_free (mapcounts s) 0 = Some f"
    and "cur_pdes s ! page_dir_idx c vpn = None" "length junk = NR_PTES_PER_PAGE c"
  shows "alloc_page c junk vpn rw s =
     Some (of_nat f,
       s\<lparr>mapcounts := (mapcounts s)[f := 1],
         heap := heap s @ [junk[page_entry_idx c vpn := map_pte rw (of_nat f) (junk ! page_entry_idx c vpn)]],
         procs := (procs s)[current s := (procs s ! current s)
                    \<lparr>pagetable := \<lparr>pdes = (cur_pdes s)[page_dir_idx c vpn := Some (length (heap s))]\<rparr>\<rparr>]\<rparr>)"
proof -
  have cfg: "config_ok c" using assms(1) by (simp add: state_ok_def)
  have i: "page_dir_idx c vpn < length (cur_pdes s)"
    using in_range_dir[OF cfg assms(2)] state_ok_cur[OF assms(1)] by simp
  show ?thesis
    using assms(3,4,5) i in_range_entry[OF cfg, of vpn]
    by (simp add: alloc_page_def Let_def cur_pdes_def pte_update_def map_pte_def add_dir_def
        set_cur_pde_def nth_append)
qed

lemma frame_word:
  assumes "config_ok c" "f < NR_PAGEFRAMES c"
  shows "unat (of_nat f :: u32) = f" "(of_nat f :: u32) \<noteq> - 1"
proof -
  have lt: "f < 2 ^ 32 - 1" using assms by (simp add: config_ok_def)
  then show u: "unat (of_nat f :: u32) = f" by (simp add: unat_of_nat)
  have "unat (- 1 :: u32) = 2 ^ 32 - 1"
    by (simp add: unsigned_minus_1_eq_mask mask_eq_exp_minus_1)
  then show "(of_nat f :: u32) \<noteq> - 1" using u lt by (metis nat_neq_iff)
qed

section \<open>Facts about the fork\<close>

lemma length_bump [simp]: "length (bump es mc) = length mc"
  by (induction es arbitrary: mc) auto

lemma bump_append: "bump (es @ fs) mc = bump fs (bump es mc)"
  by (induction es arbitrary: mc) auto

lemma frame_refs_Nil [simp]: "frame_refs f [] = 0"
  by (simp add: frame_refs_def)

lemma frame_refs_Cons:
  "frame_refs f (e # es) = (if pte_valid e \<and> unat (pte_pfn e) = f then 1 else 0) + frame_refs f es"
  by (simp add: frame_refs_def)

lemma frame_refs_append [simp]: "frame_refs f (es @ fs) = frame_refs f es + frame_refs f fs"
  by (simp add: frame_refs_def)

lemma bump_nth:
  "f < length mc \<Longrightarrow> bump es mc ! f = mc ! f + of_nat (frame_refs f es)"
proof (induction es arbitrary: mc)
  case Nil
  then show ?case by simp
next
  case (Cons e es)
  show ?case
  proof (cases "pte_valid e \<and> unat (pte_pfn e) = f")
    case True
    then show ?thesis using Cons by (simp add: frame_refs_Cons)
  next
    case False
    then show ?thesis using Cons by (auto simp add: frame_refs_Cons)
  qed
qed

lemma fork_ptes_Some:
  "\<forall>e \<in> set es. pte_valid e \<longrightarrow> unat (pte_pfn e) < length mc \<Longrightarrow>
   fork_ptes es mc = Some (map cow_share es, map cow_share es, bump es mc)"
proof (induction es arbitrary: mc)
  case Nil
  then show ?case by simp
next
  case (Cons e es)
  show ?case
  proof (cases "pte_valid e")
    case True
    let ?mc1 = "mc[unat (pte_pfn e) := mc ! unat (pte_pfn e) + 1]"
    have "\<forall>x \<in> set es. pte_valid x \<longrightarrow> unat (pte_pfn x) < length ?mc1" using Cons.prems by simp
    then have "fork_ptes es ?mc1 = Some (map cow_share es, map cow_share es, bump es ?mc1)"
      by (rule Cons.IH)
    then show ?thesis using True Cons.prems by (simp add: cow_share_def Let_def)
  next
    case False
    have "fork_ptes es mc = Some (map cow_share es, map cow_share es, bump es mc)"
      using Cons.prems by (intro Cons.IH) simp
    then show ?thesis using False by (simp add: cow_share_def)
  qed
qed

lemma length_child_pdes [simp]: "length (child_pdes ds n) = length ds"
  by (induction ds n rule: child_pdes.induct) auto

lemma ptrs_child_pdes: "ptrs (child_pdes ds n) = [n ..< n + length (ptrs ds)]"
  by (induction ds n rule: child_pdes.induct) (auto simp: upt_rec)

lemma child_pdes_None: "i < length ds \<Longrightarrow> ds ! i = None \<Longrightarrow> child_pdes ds n ! i = None"
proof (induction ds n arbitrary: i rule: child_pdes.induct)
  case (1 n)
  then show ?case by simp
next
  case (2 ds n)
  then show ?case by (cases i) auto
next
  case (3 a ds n)
  then show ?case by (cases i) auto
qed

lemma child_pdes_Some:
  "i < length ds \<Longrightarrow> ds ! i = Some a \<Longrightarrow>
   \<exists>k < length (ptrs ds). ptrs ds ! k = a \<and> child_pdes ds n ! i = Some (n + k)"
proof (induction ds n arbitrary: i rule: child_pdes.induct)
  case (1 n)
  then show ?case by simp
next
  case (2 ds n)
  then show ?case by (cases i) auto
next
  case (3 b ds n)
  show ?case
  proof (cases i)
    case 0
    then show ?thesis using 3 by auto
  next
    case (Suc i')
    then obtain k where "k < length (ptrs ds)" "ptrs ds ! k = a" "child_pdes ds (Suc n) ! i' = Some (Suc n + k)"
      using 3 by force
    then show ?thesis using Suc by (intro exI[of _ "Suc k"]) simp
  qed
qed

lemma fork_pdes_Some:
  assumes "\<forall>a \<in> set (ptrs ds). a < length h" "distinct (ptrs ds)"
    and "\<forall>a \<in> set (ptrs ds). \<forall>e \<in> set (h ! a). pte_valid e \<longrightarrow> unat (pte_pfn e) < length mc"
  shows "\<exists>h'. fork_pdes ds h mc =
            Some (child_pdes ds (length h), h', bump (concat (map ((!) h) (ptrs ds))) mc) \<and>
          length h' = length h + length (ptrs ds) \<and>
          (\<forall>a < length h. h' ! a = (if a \<in> set (ptrs ds) then map cow_share (h ! a) else h ! a)) \<and>
          (\<forall>k < length (ptrs ds). h' ! (length h + k) = map cow_share (h ! (ptrs ds ! k)))"
  using assms
proof (induction ds arbitrary: h mc)
  case Nil
  then show ?case by simp
next
  case (Cons d ds)
  show ?case
  proof (cases d)
    case None
    obtain h' where h': "fork_pdes ds h mc =
            Some (child_pdes ds (length h), h', bump (concat (map ((!) h) (ptrs ds))) mc)"
          "length h' = length h + length (ptrs ds)"
          "\<forall>a < length h. h' ! a = (if a \<in> set (ptrs ds) then map cow_share (h ! a) else h ! a)"
          "\<forall>k < length (ptrs ds). h' ! (length h + k) = map cow_share (h ! (ptrs ds ! k))"
      using Cons.IH[of h mc] Cons.prems None by auto
    show ?thesis using None h' by (intro exI[of _ h']) simp
  next
    case (Some a)
    let ?pg = "map cow_share (h ! a)"
    let ?h1 = "h[a := ?pg] @ [?pg]"
    let ?mc1 = "bump (h ! a) mc"
    have a: "a < length h" "a \<notin> set (ptrs ds)" "distinct (ptrs ds)"
      and lt: "\<forall>x \<in> set (ptrs ds). x < length h"
      using Cons.prems Some by auto
    have same: "?h1 ! x = h ! x" if "x \<in> set (ptrs ds)" for x
    proof -
      have "x < length h" "x \<noteq> a" using that a lt by auto
      then show ?thesis by (simp add: nth_append)
    qed
    have fp: "fork_ptes (h ! a) mc = Some (?pg, ?pg, ?mc1)"
      using Cons.prems(3) Some by (intro fork_ptes_Some) simp
    have p1: "\<forall>x \<in> set (ptrs ds). x < length ?h1" using lt by auto
    have p3: "\<forall>x \<in> set (ptrs ds). \<forall>e \<in> set (?h1 ! x). pte_valid e \<longrightarrow> unat (pte_pfn e) < length ?mc1"
      using Cons.prems(3) Some same by simp
    obtain h' where h': "fork_pdes ds ?h1 ?mc1 =
            Some (child_pdes ds (length ?h1), h', bump (concat (map ((!) ?h1) (ptrs ds))) ?mc1)"
          "length h' = length ?h1 + length (ptrs ds)"
          "\<forall>x < length ?h1. h' ! x = (if x \<in> set (ptrs ds) then map cow_share (?h1 ! x) else ?h1 ! x)"
          "\<forall>k < length (ptrs ds). h' ! (length ?h1 + k) = map cow_share (?h1 ! (ptrs ds ! k))"
      using Cons.IH[OF p1 a(3) p3] by blast
    have maps: "map ((!) ?h1) (ptrs ds) = map ((!) h) (ptrs ds)"
      using same by (intro map_cong) auto
    have mc': "bump (concat (map ((!) ?h1) (ptrs ds))) ?mc1 = bump (concat (map ((!) h) (ptrs (d # ds)))) mc"
    proof -
      have "bump (concat (map ((!) ?h1) (ptrs ds))) ?mc1 = bump (concat (map ((!) h) (ptrs ds))) ?mc1"
        by (simp only: maps)
      then show ?thesis using Some by (simp add: bump_append)
    qed
    have old: "\<forall>x < length h. h' ! x = (if x \<in> set (ptrs (d # ds)) then map cow_share (h ! x) else h ! x)"
    proof (intro allI impI)
      fix x assume x: "x < length h"
      then have hx: "h' ! x = (if x \<in> set (ptrs ds) then map cow_share (?h1 ! x) else ?h1 ! x)"
        using h'(3) by simp
      show "h' ! x = (if x \<in> set (ptrs (d # ds)) then map cow_share (h ! x) else h ! x)"
      proof (cases "x \<in> set (ptrs ds)")
        case True
        then have "h' ! x = map cow_share (h ! x)" using hx same[OF True] by simp
        then show ?thesis using True Some by simp
      next
        case False
        then have "h' ! x = ?h1 ! x" using hx by simp
        also have "\<dots> = (if x = a then ?pg else h ! x)" using x by (simp add: nth_append)
        finally show ?thesis using False Some by simp
      qed
    qed
    have new: "\<forall>k < length (ptrs (d # ds)). h' ! (length h + k) = map cow_share (h ! (ptrs (d # ds) ! k))"
    proof (intro allI impI)
      fix k assume k: "k < length (ptrs (d # ds))"
      show "h' ! (length h + k) = map cow_share (h ! (ptrs (d # ds) ! k))"
      proof (cases k)
        case 0
        have "length h \<notin> set (ptrs ds)" using lt by auto
        then have "h' ! length h = ?h1 ! length h" using h'(3) by simp
        then show ?thesis using 0 Some by (simp add: nth_append)
      next
        case (Suc k')
        then have k': "k' < length (ptrs ds)" using k Some by simp
        then have "h' ! (length ?h1 + k') = map cow_share (?h1 ! (ptrs ds ! k'))" using h'(4) by simp
        moreover have "?h1 ! (ptrs ds ! k') = h ! (ptrs ds ! k')" using same k' by simp
        ultimately show ?thesis using Suc Some by simp
      qed
    qed
    show ?thesis
      using Some a(1) fp h'(1,2) mc' old new by (intro exI[of _ h']) simp
  qed
qed

lemma cur_pages_owned: "set (pages_of s (current s)) \<subseteq> set (owned s)"
  by (auto simp: owned_def live_def)

lemma find_pid_None: "find_pid ps q p = None \<longleftrightarrow> (\<forall>a \<in> set q. pid (ps ! a) \<noteq> p)"
  by (induction q) auto

lemma find_pid_Some:
  "find_pid ps q p = Some a \<Longrightarrow> a \<in> set q \<and> pid (ps ! a) = p"
  by (induction q) (auto split: if_splits)

lemma length_flush_tlb [simp]: "length (flush_tlb t) = length t"
  by (induction t) auto

lemma switch_process_fork:
  assumes ok: "state_ok c s" and fr: "frames_ok c s"
    and nf: "find_pid (procs s) (processes s) p = None"
  shows "\<exists>s'. switch_process c p s = Some s' \<and>
           procs s' = procs s @ [\<lparr>pid = p, pagetable = \<lparr>pdes = child_pdes (cur_pdes s) (length (heap s))\<rparr>\<rparr>] \<and>
           processes s' = processes s @ [current s] \<and>
           current s' = length (procs s) \<and> ptbr s' = length (procs s) \<and>
           tlb s' = flush_tlb (tlb s) \<and>
           mapcounts s' = bump (entries_of s (current s)) (mapcounts s) \<and>
           length (heap s') = length (heap s) + length (pages_of s (current s)) \<and>
           (\<forall>a < length (heap s). heap s' ! a =
              (if a \<in> set (pages_of s (current s)) then map cow_share (heap s ! a) else heap s ! a)) \<and>
           (\<forall>k < length (pages_of s (current s)).
              heap s' ! (length (heap s) + k) = map cow_share (heap s ! (pages_of s (current s) ! k)))"
proof -
  let ?ds = "cur_pdes s"
  have pg: "pages_of s (current s) = ptrs ?ds" by (simp add: pages_of_def cur_pdes_def)
  have sub: "set (ptrs ?ds) \<subseteq> set (owned s)" using cur_pages_owned[of s] pg by simp
  have a1: "\<forall>a \<in> set (ptrs ?ds). a < length (heap s)"
    using ok sub by (auto simp: state_ok_def)
  have "distinct (pages_of s (current s))"
    using ok by (simp add: state_ok_def owned_def live_def)
  then have a2: "distinct (ptrs ?ds)" using pg by simp
  have len: "length (mapcounts s) = NR_PAGEFRAMES c" using ok by (simp add: state_ok_def)
  have a3: "\<forall>a \<in> set (ptrs ?ds). \<forall>e \<in> set (heap s ! a). pte_valid e \<longrightarrow> unat (pte_pfn e) < length (mapcounts s)"
    using fr sub len by (auto simp: frames_ok_def)
  obtain h' where h': "fork_pdes ?ds (heap s) (mapcounts s) =
            Some (child_pdes ?ds (length (heap s)), h', bump (concat (map ((!) (heap s)) (ptrs ?ds))) (mapcounts s))"
      "length h' = length (heap s) + length (ptrs ?ds)"
      "\<forall>a < length (heap s). h' ! a = (if a \<in> set (ptrs ?ds) then map cow_share (heap s ! a) else heap s ! a)"
      "\<forall>k < length (ptrs ?ds). h' ! (length (heap s) + k) = map cow_share (heap s ! (ptrs ?ds ! k))"
    using fork_pdes_Some[OF a1 a2 a3] by blast
  show ?thesis
    using nf h' pg by (simp add: switch_process_def switch_to_def entries_of_def)
qed

lemma cow_share_valid [simp]: "pte_valid (cow_share e) = pte_valid e"
  by (simp add: cow_share_def)

lemma cow_share_pfn [simp]: "pte_pfn (cow_share e) = pte_pfn e"
  by (simp add: cow_share_def)

lemma fork_preserves_ok:
  assumes ok: "state_ok c s" and fr: "frames_ok c s"
    and pr: "procs s' = procs s @ [\<lparr>pid = p, pagetable = \<lparr>pdes = child_pdes (cur_pdes s) (length (heap s))\<rparr>\<rparr>]"
    and q: "processes s' = processes s @ [current s]"
    and cu: "current s' = length (procs s)"
    and tl: "length (tlb s') = length (tlb s)"
    and mc: "length (mapcounts s') = length (mapcounts s)"
    and hl: "length (heap s') = length (heap s) + length (pages_of s (current s))"
    and ho: "\<forall>a < length (heap s). heap s' ! a =
              (if a \<in> set (pages_of s (current s)) then map cow_share (heap s ! a) else heap s ! a)"
    and hn: "\<forall>k < length (pages_of s (current s)).
              heap s' ! (length (heap s) + k) = map cow_share (heap s ! (pages_of s (current s) ! k))"
  shows "state_ok c s'" and "frames_ok c s'"
    and "owned s' = [length (heap s) ..< length (heap s) + length (pages_of s (current s))] @
                    concat (map (pages_of s) (processes s)) @ pages_of s (current s)"
proof -
  let ?n = "length (heap s)" and ?np = "length (procs s)"
  let ?m = "length (pages_of s (current s))"
  have lv: "\<forall>x \<in> set (live s). x < ?np" "distinct (live s)"
    using ok by (simp_all add: state_ok_def)
  have old_proc: "procs s' ! x = procs s ! x" if "x \<in> set (live s)" for x
    using lv(1) that pr by (simp add: nth_append)
  have old_pages: "pages_of s' x = pages_of s x" if "x \<in> set (live s)" for x
    using old_proc[OF that] by (simp add: pages_of_def)
  have new_pages: "pages_of s' ?np = [?n ..< ?n + ?m]"
    using pr by (simp add: pages_of_def ptrs_child_pdes cur_pdes_def)
  have "concat (map (pages_of s') (processes s)) = concat (map (pages_of s) (processes s))"
    using old_pages by (intro arg_cong[where f = concat] map_cong) (auto simp: live_def)
  moreover have "pages_of s' (current s) = pages_of s (current s)"
    using old_pages by (simp add: live_def)
  ultimately show ow: "owned s' = [?n ..< ?n + ?m] @ concat (map (pages_of s) (processes s)) @ pages_of s (current s)"
    using new_pages by (simp add: owned_def live_def q cu)
  have old_own: "set (owned s) = set (pages_of s (current s)) \<union> set (concat (map (pages_of s) (processes s)))"
    by (simp add: owned_def live_def)
  have own_lt: "\<forall>a \<in> set (owned s). a < ?n \<and> length (heap s ! a) = NR_PTES_PER_PAGE c"
    and dis: "distinct (owned s)"
    using ok by (simp_all add: state_ok_def)
  have d': "distinct (owned s')"
  proof -
    have "distinct (concat (map (pages_of s) (processes s)) @ pages_of s (current s))"
      using dis by (auto simp: owned_def live_def)
    moreover have "set [?n ..< ?n + ?m] \<inter> set (concat (map (pages_of s) (processes s)) @ pages_of s (current s)) = {}"
    proof -
      define X where "X = set (concat (map (pages_of s) (processes s)) @ pages_of s (current s))"
      have "X = set (owned s)" unfolding X_def old_own by auto
      then have "\<forall>a \<in> X. a < ?n" using own_lt by simp
      then have "set [?n ..< ?n + ?m] \<inter> X = {}" by fastforce
      then show ?thesis unfolding X_def .
    qed
    ultimately show ?thesis unfolding ow by simp
  qed
  have live': "live s' = ?np # processes s @ [current s]" by (simp add: live_def q cu)
  have dl: "distinct (live s')"
    using lv unfolding live' by (auto simp: live_def)
  have pl: "\<forall>x \<in> set (live s'). x < length (procs s') \<and>
        length (pdes (pagetable (procs s' ! x))) = NR_PDES_PER_PAGE c"
  proof
    fix x assume "x \<in> set (live s')"
    then consider "x = ?np" | "x \<in> set (live s)" unfolding live' by (auto simp: live_def)
    then show "x < length (procs s') \<and> length (pdes (pagetable (procs s' ! x))) = NR_PDES_PER_PAGE c"
    proof cases
      case 1
      then show ?thesis using pr state_ok_cur[OF ok] by simp
    next
      case 2
      have "x < ?np" using lv(1) 2 by simp
      moreover have "length (pdes (pagetable (procs s ! x))) = NR_PDES_PER_PAGE c"
        using ok 2 by (simp add: state_ok_def)
      ultimately show ?thesis using old_proc[OF 2] pr by simp
    qed
  qed
  have page_eq: "\<forall>a \<in> set (owned s'). a < length (heap s') \<and>
      (\<exists>b \<in> set (owned s). heap s' ! a = heap s ! b \<or> heap s' ! a = map cow_share (heap s ! b))"
  proof
    fix a assume "a \<in> set (owned s')"
    then consider k where "k < ?m" "a = ?n + k" | "a \<in> set (owned s)"
      unfolding ow using old_own by (auto simp: nat_le_iff_add)
    then show "a < length (heap s') \<and>
      (\<exists>b \<in> set (owned s). heap s' ! a = heap s ! b \<or> heap s' ! a = map cow_share (heap s ! b))"
    proof cases
      case 1
      have "pages_of s (current s) ! k \<in> set (owned s)"
        using 1(1) cur_pages_owned[of s] by auto
      then show ?thesis using 1 hn hl by auto
    next
      case 2
      then have "a < ?n" using own_lt by simp
      then show ?thesis using 2 ho hl by auto
    qed
  qed
  have pgl: "\<forall>a \<in> set (owned s'). a < length (heap s') \<and> length (heap s' ! a) = NR_PTES_PER_PAGE c"
  proof
    fix a assume a: "a \<in> set (owned s')"
    then obtain b where "b \<in> set (owned s)" "heap s' ! a = heap s ! b \<or> heap s' ! a = map cow_share (heap s ! b)"
      using page_eq by blast
    then have "length (heap s' ! a) = NR_PTES_PER_PAGE c" using own_lt by auto
    then show "a < length (heap s') \<and> length (heap s' ! a) = NR_PTES_PER_PAGE c"
      using page_eq a by simp
  qed
  show "state_ok c s'"
    using ok dl pl d' pgl tl mc by (simp add: state_ok_def)
  show "frames_ok c s'"
    unfolding frames_ok_def
  proof (intro ballI impI)
    fix a e assume a: "a \<in> set (owned s')" and e: "e \<in> set (heap s' ! a)" "pte_valid e"
    obtain b where b: "b \<in> set (owned s)" "heap s' ! a = heap s ! b \<or> heap s' ! a = map cow_share (heap s ! b)"
      using page_eq a by blast
    then obtain e0 where "e0 \<in> set (heap s ! b)" "pte_valid e0" "pte_pfn e = pte_pfn e0"
      using e by auto
    then show "unat (pte_pfn e) < NR_PAGEFRAMES c"
      using fr b(1) by (auto simp: frames_ok_def)
  qed
qed

lemma cur_pte_SomeD:
  assumes ok: "state_ok c s" and r: "in_range c vpn" and e: "cur_pte c s vpn = Some e"
  shows "\<exists>a. cur_pdes s ! page_dir_idx c vpn = Some a \<and> a \<in> set (pages_of s (current s)) \<and>
             a < length (heap s) \<and> page_entry_idx c vpn < length (heap s ! a) \<and>
             e = heap s ! a ! page_entry_idx c vpn"
proof -
  have cfg: "config_ok c" using ok by (simp add: state_ok_def)
  have i: "page_dir_idx c vpn < length (cur_pdes s)"
    using in_range_dir[OF cfg r] state_ok_cur[OF ok] by simp
  obtain a where a: "cur_pdes s ! page_dir_idx c vpn = Some a" "pte_at s a (page_entry_idx c vpn) = Some e"
    using e i by (auto simp: cur_pte_def proc_pte_def cur_pdes_def split: option.splits)
  have "a \<in> set (pages_of s (current s))"
    using i a(1) unfolding pages_of_def cur_pdes_def by (rule ptrs_mem)
  then show ?thesis using a by (auto simp: pte_at_def split: if_splits)
qed

lemma fork_entry:
  assumes ok: "state_ok c s" and r: "in_range c vpn" and e: "cur_pte c s vpn = Some e"
    and pr: "procs s' = procs s @ [\<lparr>pid = p, pagetable = \<lparr>pdes = child_pdes (cur_pdes s) (length (heap s))\<rparr>\<rparr>]"
    and hl: "length (heap s') = length (heap s) + length (pages_of s (current s))"
    and ho: "\<forall>a < length (heap s). heap s' ! a =
              (if a \<in> set (pages_of s (current s)) then map cow_share (heap s ! a) else heap s ! a)"
    and hn: "\<forall>k < length (pages_of s (current s)).
              heap s' ! (length (heap s) + k) = map cow_share (heap s ! (pages_of s (current s) ! k))"
  shows "proc_pte c s' (current s) vpn = Some (cow_share e)"
    and "proc_pte c s' (length (procs s)) vpn = Some (cow_share e)"
proof -
  let ?i = "page_dir_idx c vpn" and ?j = "page_entry_idx c vpn"
  have cfg: "config_ok c" using ok by (simp add: state_ok_def)
  have i: "?i < length (cur_pdes s)"
    using in_range_dir[OF cfg r] state_ok_cur[OF ok] by simp
  obtain a where a: "cur_pdes s ! ?i = Some a" "a \<in> set (pages_of s (current s))"
      "a < length (heap s)" "?j < length (heap s ! a)" "e = heap s ! a ! ?j"
    using cur_pte_SomeD[OF ok r e] by blast
  have cur: "current s < length (procs s)" using state_ok_cur[OF ok] by simp
  have pa: "heap s' ! a = map cow_share (heap s ! a)" using ho a(2,3) by simp
  have "procs s' ! current s = procs s ! current s" using pr cur by (simp add: nth_append)
  then show "proc_pte c s' (current s) vpn = Some (cow_share e)"
    using i a pa hl by (simp add: proc_pte_def cur_pdes_def pte_at_def)
  have pg: "pages_of s (current s) = ptrs (cur_pdes s)" by (simp add: pages_of_def cur_pdes_def)
  obtain k where k: "k < length (ptrs (cur_pdes s))" "ptrs (cur_pdes s) ! k = a"
      "child_pdes (cur_pdes s) (length (heap s)) ! ?i = Some (length (heap s) + k)"
    using child_pdes_Some[OF i a(1)] by blast
  have pb: "heap s' ! (length (heap s) + k) = map cow_share (heap s ! a)"
    using hn k pg by simp
  show "proc_pte c s' (length (procs s)) vpn = Some (cow_share e)"
    using i a k pb hl pr pg by (simp add: proc_pte_def pte_at_def)
qed

section \<open>Facts about the fault handler\<close>

lemma other_pages_disjoint:
  assumes "state_ok c s" "p \<in> set (processes s)"
  shows "set (pages_of s p) \<inter> set (pages_of s (current s)) = {}"
proof -
  have "distinct (pages_of s (current s) @ concat (map (pages_of s) (processes s)))"
    using assms(1) by (simp add: state_ok_def owned_def live_def)
  then have "set (pages_of s (current s)) \<inter> set (concat (map (pages_of s) (processes s))) = {}"
    by simp
  moreover have "set (pages_of s p) \<subseteq> set (concat (map (pages_of s) (processes s)))"
    using assms(2) by auto
  ultimately show ?thesis by blast
qed

lemma proc_pte_other:
  assumes ok: "state_ok c s" and p: "p \<in> set (processes s)"
    and a: "a \<in> set (pages_of s (current s))"
    and pr: "procs s' = procs s" and hl: "length (heap s') = length (heap s)"
    and ho: "\<forall>b. b \<noteq> a \<longrightarrow> heap s' ! b = heap s ! b"
  shows "proc_pte c s' p v = proc_pte c s p v"
proof (cases "page_dir_idx c v < length (pdes (pagetable (procs s ! p)))")
  case False
  then show ?thesis using pr by (simp add: proc_pte_def)
next
  case True
  show ?thesis
  proof (cases "pdes (pagetable (procs s ! p)) ! page_dir_idx c v")
    case None
    then show ?thesis using True pr by (simp add: proc_pte_def)
  next
    case (Some b)
    have "b \<in> set (pages_of s p)"
      using True Some unfolding pages_of_def by (rule ptrs_mem)
    then have "b \<noteq> a" using other_pages_disjoint[OF ok p] a by blast
    then have "pte_at s' b (page_entry_idx c v) = pte_at s b (page_entry_idx c v)"
      using ho hl by (simp add: pte_at_def)
    then show ?thesis using True Some pr by (simp add: proc_pte_def)
  qed
qed

lemma cur_entry_frame:
  assumes "frames_ok c s" "a \<in> set (pages_of s (current s))" "j < length (heap s ! a)"
    "pte_valid (heap s ! a ! j)"
  shows "unat (pte_pfn (heap s ! a ! j)) < NR_PAGEFRAMES c"
proof -
  have "a \<in> set (owned s)" using assms(2) cur_pages_owned[of s] by auto
  moreover have "heap s ! a ! j \<in> set (heap s ! a)" using assms(3) by simp
  ultimately show ?thesis using assms(1,4) unfolding frames_ok_def by blast
qed

text \<open>
  A page number is fixed by its two indices, and no directory page is named by two slots of
  one page table: a write to one entry of the running process leaves its entries for all
  other pages as they were.
\<close>

lemma ptrs_nth_inj:
  "distinct (ptrs ds) \<Longrightarrow> i < length ds \<Longrightarrow> k < length ds \<Longrightarrow>
   ds ! i = Some a \<Longrightarrow> ds ! k = Some a \<Longrightarrow> i = k"
proof (induction ds arbitrary: i k)
  case Nil
  then show ?case by simp
next
  case (Cons d ds)
  have dd: "distinct (ptrs ds)" using Cons.prems(1) by (cases d) (simp_all add: ptrs_def)
  have notin: "d = Some a \<Longrightarrow> a \<notin> set (ptrs ds)" using Cons.prems(1) by (simp add: ptrs_def)
  show ?case
  proof (cases i)
    case 0
    then have d: "d = Some a" using Cons.prems(4) by simp
    show ?thesis
    proof (cases k)
      case 0
      then show ?thesis using \<open>i = 0\<close> by simp
    next
      case (Suc k')
      then have "a \<in> set (ptrs ds)" using Cons.prems(3,5) ptrs_mem[of k' ds a] by simp
      then show ?thesis using notin[OF d] by simp
    qed
  next
    case (Suc i')
    show ?thesis
    proof (cases k)
      case 0
      then have d: "d = Some a" using Cons.prems(5) by simp
      have "a \<in> set (ptrs ds)" using Suc Cons.prems(2,4) ptrs_mem[of i' ds a] by simp
      then show ?thesis using notin[OF d] by simp
    next
      case (Suc k')
      have "i' = k'" using Cons.IH[OF dd, of i' k'] Cons.prems(2-5) \<open>i = Suc i'\<close> Suc by simp
      then show ?thesis using \<open>i = Suc i'\<close> Suc by simp
    qed
  qed
qed

lemma cur_pdes_inj:
  assumes "state_ok c s" "i < length (cur_pdes s)" "k < length (cur_pdes s)"
    "cur_pdes s ! i = Some a" "cur_pdes s ! k = Some a"
  shows "i = k"
proof -
  have "distinct (pages_of s (current s))"
    using assms(1) by (simp add: state_ok_def owned_def live_def)
  then have "distinct (ptrs (cur_pdes s))" by (simp add: pages_of_def cur_pdes_def)
  then show ?thesis using ptrs_nth_inj assms(2-5) by blast
qed

lemma page_idx_eq: "page_dir_idx c v * NR_PTES_PER_PAGE c + page_entry_idx c v = unat v"
  by (simp add: page_dir_idx_def page_entry_idx_def)

lemma page_idx_inj:
  assumes "page_dir_idx c v = page_dir_idx c w" "page_entry_idx c v = page_entry_idx c w"
  shows "v = w"
proof -
  have "unat v = unat w" using page_idx_eq[of c v] page_idx_eq[of c w] assms by simp
  then show ?thesis by (simp add: word_unat_eq_iff)
qed

lemma cur_pte_other:
  assumes ok: "state_ok c s" and i: "page_dir_idx c vpn < length (cur_pdes s)"
    and a: "cur_pdes s ! page_dir_idx c vpn = Some a"
    and pr: "procs s' = procs s" "current s' = current s"
    and h: "heap s' = (heap s)[a := (heap s ! a)[page_entry_idx c vpn := x]]"
    and v: "v \<noteq> vpn"
  shows "cur_pte c s' v = cur_pte c s v"
proof (cases "page_dir_idx c v < length (cur_pdes s)")
  case False
  then show ?thesis using pr by (simp add: cur_pte_def proc_pte_def cur_pdes_def)
next
  case True
  show ?thesis
  proof (cases "cur_pdes s ! page_dir_idx c v")
    case None
    then show ?thesis using pr True by (simp add: cur_pte_def proc_pte_def cur_pdes_def)
  next
    case (Some b)
    have "pte_at s' b (page_entry_idx c v) = pte_at s b (page_entry_idx c v)"
    proof (cases "b = a")
      case False
      then show ?thesis using h by (simp add: pte_at_def)
    next
      case True
      then have "page_dir_idx c v = page_dir_idx c vpn"
        using cur_pdes_inj[OF ok \<open>page_dir_idx c v < length (cur_pdes s)\<close> i] Some a by simp
      then have "page_entry_idx c v \<noteq> page_entry_idx c vpn" using page_idx_inj v by blast
      then show ?thesis using h True by (auto simp: pte_at_def nth_list_update)
    qed
    then show ?thesis using pr True Some by (simp add: cur_pte_def proc_pte_def cur_pdes_def)
  qed
qed

section \<open>The frame-count invariant\<close>

lemma frame_refs_concat: "frame_refs f (concat xss) = (\<Sum>xs\<leftarrow>xss. frame_refs f xs)"
  by (induction xss) simp_all

lemma refcount_owned: "refcount s f = (\<Sum>a\<leftarrow>owned s. frame_refs f (heap s ! a))"
proof -
  have "(\<Sum>a\<leftarrow>concat (map (pages_of s) ps). frame_refs f (heap s ! a)) =
        (\<Sum>p\<leftarrow>ps. frame_refs f (entries_of s p))" for ps
    by (induction ps) (simp_all add: entries_of_def frame_refs_concat comp_def)
  then show ?thesis by (simp add: refcount_def owned_def)
qed

lemma sum_list_change_one:
  fixes g g' :: "'a \<Rightarrow> nat"
  assumes "distinct xs" "a \<in> set xs" "\<forall>x. x \<noteq> a \<longrightarrow> g' x = g x"
  shows "sum_list (map g' xs) + g a = sum_list (map g xs) + g' a"
  using assms
proof (induction xs)
  case Nil
  then show ?case by simp
next
  case (Cons x xs)
  show ?case
  proof (cases "x = a")
    case True
    then have "a \<notin> set xs" using Cons.prems by simp
    then have "sum_list (map g' xs) = sum_list (map g xs)"
      using Cons.prems(3) by (intro arg_cong[where f = sum_list] map_cong) auto
    then show ?thesis using True by simp
  next
    case False
    then have "sum_list (map g' xs) + g a = sum_list (map g xs) + g' a"
      using Cons by simp
    then show ?thesis using False Cons.prems(3) by simp
  qed
qed

lemma frame_refs_update:
  "j < length pg \<Longrightarrow> frame_refs f (pg[j := e]) + frame_refs f [pg ! j] = frame_refs f pg + frame_refs f [e]"
proof (induction pg arbitrary: j)
  case Nil
  then show ?case by simp
next
  case (Cons x pg)
  show ?case
  proof (cases j)
    case 0
    then show ?thesis by (simp add: frame_refs_Cons)
  next
    case (Suc k)
    then have "frame_refs f (pg[k := e]) + frame_refs f [pg ! k] = frame_refs f pg + frame_refs f [e]"
      using Cons by simp
    then show ?thesis using Suc by (simp add: frame_refs_Cons)
  qed
qed

lemma refcount_entry_update:
  assumes "distinct (owned s)" "a \<in> set (owned s)" "j < length (heap s ! a)" "a < length (heap s)"
    and "owned s' = owned s"
    and "heap s' = (heap s)[a := (heap s ! a)[j := e]]"
  shows "refcount s' f + frame_refs f [heap s ! a ! j] = refcount s f + frame_refs f [e]"
proof -
  let ?g = "\<lambda>x. frame_refs f (heap s ! x)" and ?g' = "\<lambda>x. frame_refs f (heap s' ! x)"
  have "\<forall>x. x \<noteq> a \<longrightarrow> ?g' x = ?g x" using assms(6) by simp
  then have "sum_list (map ?g' (owned s)) + ?g a = sum_list (map ?g (owned s)) + ?g' a"
    by (rule sum_list_change_one[OF assms(1,2)])
  moreover have "?g' a + frame_refs f [heap s ! a ! j] = ?g a + frame_refs f [e]"
    using assms(3,4,6) by (simp add: frame_refs_update)
  ultimately show ?thesis using assms(5) by (simp add: refcount_owned)
qed

lemma entry_update_inv:
  assumes inv: "vm_inv c s"
    and a: "a \<in> set (owned s)" and j: "j < NR_PTES_PER_PAGE c"
    and h: "heap s' = (heap s)[a := (heap s ! a)[j := e]]"
    and same: "procs s' = procs s" "processes s' = processes s" "current s' = current s"
      "length (tlb s') = length (tlb s)" "length (mapcounts s') = length (mapcounts s)"
    and fr: "pte_valid e \<longrightarrow> unat (pte_pfn e) < NR_PAGEFRAMES c"
    and cnt: "\<forall>f < NR_PAGEFRAMES c.
        mapcounts s' ! f + of_nat (frame_refs f [heap s ! a ! j]) = mapcounts s ! f + of_nat (frame_refs f [e])"
  shows "vm_inv c s'"
proof -
  have ok: "state_ok c s" and fo: "frames_ok c s" and co: "counts_ok c s"
    using inv by (simp_all add: vm_inv_def)
  have pg: "a < length (heap s)" "length (heap s ! a) = NR_PTES_PER_PAGE c"
    using ok a by (simp_all add: state_ok_def)
  have "pages_of s' = pages_of s" using same by (simp add: pages_of_def fun_eq_iff)
  then have ow: "owned s' = owned s" and lv: "live s' = live s"
    using same by (simp_all add: owned_def live_def)
  have len2: "length (heap s') = length (heap s)" using h by simp
  have len1: "length (heap s' ! b) = length (heap s ! b)" for b
  proof (cases "b = a")
    case True
    then show ?thesis using h pg by simp
  next
    case False
    then show ?thesis using h by simp
  qed
  have ok': "state_ok c s'"
    using ok same(4,5) unfolding state_ok_def ow lv len1 len2 same(1) by simp
  have fo': "frames_ok c s'"
    unfolding frames_ok_def
  proof (intro ballI impI)
    fix b x assume b: "b \<in> set (owned s')" and x: "x \<in> set (heap s' ! b)" "pte_valid x"
    show "unat (pte_pfn x) < NR_PAGEFRAMES c"
    proof (cases "b = a")
      case True
      then have "x \<in> set ((heap s ! a)[j := e])" using x h pg by simp
      then have "x = e \<or> x \<in> set (heap s ! a)" by (meson insertE set_update_subset_insert subsetD)
      then show ?thesis using fr x(2) fo a unfolding frames_ok_def by blast
    next
      case False
      then have "heap s' ! b = heap s ! b" using h by simp
      then show ?thesis using fo b x ow unfolding frames_ok_def by auto
    qed
  qed
  have co': "counts_ok c s'"
    unfolding counts_ok_def
  proof (intro allI impI)
    fix f assume f: "f < NR_PAGEFRAMES c"
    have "refcount s' f + frame_refs f [heap s ! a ! j] = refcount s f + frame_refs f [e]"
      using ok a j pg ow h by (intro refcount_entry_update) (simp_all add: state_ok_def)
    then have "(of_nat (refcount s' f) :: u32) + of_nat (frame_refs f [heap s ! a ! j]) =
               of_nat (refcount s f) + of_nat (frame_refs f [e])"
      by (metis of_nat_add)
    moreover have "mapcounts s ! f = of_nat (refcount s f)" using co f by (simp add: counts_ok_def)
    ultimately show "mapcounts s' ! f = of_nat (refcount s' f)"
      using cnt f by (metis add_right_cancel)
  qed
  show ?thesis using ok' fo' co' by (simp add: vm_inv_def)
qed

lemma ptrs_update_split:
  "i < length ds \<Longrightarrow> ds ! i = None \<Longrightarrow>
   \<exists>xs ys. ptrs ds = xs @ ys \<and> ptrs (ds[i := Some n]) = xs @ n # ys"
proof (induction ds arbitrary: i)
  case Nil
  then show ?case by simp
next
  case (Cons d ds)
  show ?case
  proof (cases i)
    case 0
    then have "d = None" using Cons.prems by simp
    then show ?thesis using 0 by (intro exI[of _ "[]"] exI[of _ "ptrs ds"]) simp
  next
    case (Suc k)
    then have "k < length ds" "ds ! k = None" using Cons.prems by simp_all
    then obtain xs ys where xy: "ptrs ds = xs @ ys" "ptrs (ds[k := Some n]) = xs @ n # ys"
      using Cons.IH by blast
    show ?thesis
    proof (cases d)
      case None
      then show ?thesis using Suc xy by (intro exI[of _ xs] exI[of _ ys]) simp
    next
      case (Some a)
      then show ?thesis using Suc xy by (intro exI[of _ "a # xs"] exI[of _ ys]) simp
    qed
  qed
qed

lemma frame_refs_clean: "\<forall>e \<in> set pg. \<not> pte_valid e \<Longrightarrow> frame_refs f pg = 0"
  by (simp add: frame_refs_def)

lemma add_dir_fields:
  "heap (add_dir i pg s) = heap s @ [pg]"
  "processes (add_dir i pg s) = processes s"
  "current (add_dir i pg s) = current s"
  "tlb (add_dir i pg s) = tlb s"
  "mapcounts (add_dir i pg s) = mapcounts s"
  "ptbr (add_dir i pg s) = ptbr s"
  "length (procs (add_dir i pg s)) = length (procs s)"
  by (simp_all add: add_dir_def set_cur_pde_def)

lemma add_dir_procs:
  "current s < length (procs s) \<Longrightarrow>
     cur_pdes (add_dir i pg s) = (cur_pdes s)[i := Some (length (heap s))]"
  "p \<noteq> current s \<Longrightarrow> procs (add_dir i pg s) ! p = procs s ! p"
  by (simp_all add: add_dir_def set_cur_pde_def cur_pdes_def)

lemma add_dir_inv:
  assumes inv: "vm_inv c s" and i: "i < NR_PDES_PER_PAGE c" and none: "cur_pdes s ! i = None"
    and len: "length pg = NR_PTES_PER_PAGE c" and clean: "\<forall>e \<in> set pg. \<not> pte_valid e"
  shows "vm_inv c (add_dir i pg s)"
proof -
  let ?s = "add_dir i pg s" and ?n = "length (heap s)"
  let ?rest = "concat (map (pages_of s) (processes s))"
  have ok: "state_ok c s" and fo: "frames_ok c s" and co: "counts_ok c s"
    using inv by (simp_all add: vm_inv_def)
  have cur: "current s < length (procs s)" "length (cur_pdes s) = NR_PDES_PER_PAGE c"
    using state_ok_cur[OF ok] by simp_all
  have lv: "live ?s = live s" by (simp add: live_def add_dir_fields)
  have dl: "distinct (live s)" using ok by (simp add: state_ok_def)
  have other: "pages_of ?s p = pages_of s p" if "p \<in> set (processes s)" for p
  proof -
    have "p \<noteq> current s" using that dl by (auto simp: live_def)
    then show ?thesis by (simp add: pages_of_def add_dir_procs)
  qed
  have rest: "concat (map (pages_of ?s) (processes s)) = ?rest"
    using other by (intro arg_cong[where f = concat] map_cong) auto
  have curp: "pages_of ?s (current s) = ptrs ((cur_pdes s)[i := Some ?n])"
    using add_dir_procs(1)[OF cur(1), of i pg] by (simp add: pages_of_def cur_pdes_def add_dir_fields)
  obtain xs ys where xy: "ptrs (cur_pdes s) = xs @ ys" "ptrs ((cur_pdes s)[i := Some ?n]) = xs @ ?n # ys"
    using ptrs_update_split[of i "cur_pdes s" ?n] i none cur(2) by auto
  have ow: "owned s = xs @ ys @ ?rest"
    using xy(1) by (simp add: owned_def live_def pages_of_def cur_pdes_def)
  have ow': "owned ?s = xs @ ?n # ys @ ?rest"
    using xy(2) curp rest by (simp add: owned_def live_def add_dir_fields)
  have own: "\<forall>a \<in> set (owned s). a < ?n \<and> length (heap s ! a) = NR_PTES_PER_PAGE c"
    and dis: "distinct (owned s)"
    using ok by (simp_all add: state_ok_def)
  have fresh: "?n \<notin> set (owned s)" using own by auto
  have dis': "distinct (owned ?s)" using dis fresh unfolding ow ow' by auto
  have old_page: "heap ?s ! a = heap s ! a" if "a \<in> set (owned s)" for a
    using own that by (simp add: add_dir_fields nth_append)
  have new_page: "heap ?s ! ?n = pg" by (simp add: add_dir_fields)
  have mem: "a \<in> set (owned ?s) \<longleftrightarrow> a = ?n \<or> a \<in> set (owned s)" for a
    unfolding ow ow' by auto
  have pages: "\<forall>a \<in> set (owned ?s). a < length (heap ?s) \<and> length (heap ?s ! a) = NR_PTES_PER_PAGE c"
  proof
    fix a assume "a \<in> set (owned ?s)"
    then consider "a = ?n" | "a \<in> set (owned s)" using mem by blast
    then show "a < length (heap ?s) \<and> length (heap ?s ! a) = NR_PTES_PER_PAGE c"
    proof cases
      case 1
      then show ?thesis using new_page len by (simp add: add_dir_fields)
    next
      case 2
      then have "a < ?n" "length (heap s ! a) = NR_PTES_PER_PAGE c" using own by simp_all
      then show ?thesis using old_page[OF 2] by (simp add: add_dir_fields)
    qed
  qed
  have procs': "\<forall>p \<in> set (live ?s). p < length (procs ?s) \<and>
        length (pdes (pagetable (procs ?s ! p))) = NR_PDES_PER_PAGE c"
  proof
    fix p assume p: "p \<in> set (live ?s)"
    then have old: "p < length (procs s) \<and> length (pdes (pagetable (procs s ! p))) = NR_PDES_PER_PAGE c"
      using ok lv by (simp add: state_ok_def)
    show "p < length (procs ?s) \<and> length (pdes (pagetable (procs ?s ! p))) = NR_PDES_PER_PAGE c"
    proof (cases "p = current s")
      case True
      have "length (cur_pdes ?s) = NR_PDES_PER_PAGE c"
        using add_dir_procs(1)[OF cur(1), of i pg] cur(2) by simp
      then show ?thesis using True old by (simp add: cur_pdes_def add_dir_fields)
    next
      case False
      then show ?thesis using old by (simp add: add_dir_procs add_dir_fields)
    qed
  qed
  have ok': "state_ok c ?s"
    using ok dl dis' pages procs' unfolding state_ok_def lv by (simp add: add_dir_fields)
  have fo': "frames_ok c ?s"
    unfolding frames_ok_def
  proof (intro ballI impI)
    fix a e assume a: "a \<in> set (owned ?s)" and e: "e \<in> set (heap ?s ! a)" "pte_valid e"
    consider "a = ?n" | "a \<in> set (owned s)" using a mem by blast
    then show "unat (pte_pfn e) < NR_PAGEFRAMES c"
    proof cases
      case 1
      then show ?thesis using e clean new_page by auto
    next
      case 2
      then show ?thesis using e old_page[OF 2] fo unfolding frames_ok_def by auto
    qed
  qed
  have rc: "refcount ?s f = refcount s f" for f
  proof -
    have "(\<Sum>a\<leftarrow>owned s. frame_refs f (heap ?s ! a)) = (\<Sum>a\<leftarrow>owned s. frame_refs f (heap s ! a))"
      using old_page by (intro arg_cong[where f = sum_list] map_cong) auto
    moreover have "(\<Sum>a\<leftarrow>owned ?s. frame_refs f (heap ?s ! a)) =
        frame_refs f (heap ?s ! ?n) + (\<Sum>a\<leftarrow>owned s. frame_refs f (heap ?s ! a))"
      unfolding ow ow' by simp
    ultimately show ?thesis
      using new_page frame_refs_clean[OF clean, of f] by (simp add: refcount_owned)
  qed
  have co': "counts_ok c ?s"
    using co rc by (simp add: counts_ok_def add_dir_fields)
  show ?thesis using ok' fo' co' by (simp add: vm_inv_def)
qed

lemma inv_okD:
  "vm_inv c s \<Longrightarrow> state_ok c s" "vm_inv c s \<Longrightarrow> frames_ok c s" "vm_inv c s \<Longrightarrow> counts_ok c s"
  "vm_inv c s \<Longrightarrow> config_ok c" "vm_inv c s \<Longrightarrow> length (mapcounts s) = NR_PAGEFRAMES c"
  by (simp_all add: vm_inv_def state_ok_def)

lemma cur_dir_page:
  assumes ok: "state_ok c s" and r: "in_range c vpn" and d: "cur_pdes s ! page_dir_idx c vpn = Some a"
  shows "a \<in> set (owned s)" "a < length (heap s)" "length (heap s ! a) = NR_PTES_PER_PAGE c"
    "page_entry_idx c vpn < NR_PTES_PER_PAGE c" "page_dir_idx c vpn < length (cur_pdes s)"
    "pte_at s a (page_entry_idx c vpn) = Some (heap s ! a ! page_entry_idx c vpn)"
proof -
  have cfg: "config_ok c" using ok by (simp add: state_ok_def)
  show i: "page_dir_idx c vpn < length (cur_pdes s)"
    using in_range_dir[OF cfg r] state_ok_cur[OF ok] by simp
  have "a \<in> set (pages_of s (current s))"
    using i d unfolding pages_of_def cur_pdes_def by (rule ptrs_mem)
  then show "a \<in> set (owned s)" using cur_pages_owned[of s] by auto
  show pg: "a < length (heap s)" "length (heap s ! a) = NR_PTES_PER_PAGE c"
    using state_ok_cur_page[OF ok _ d] in_range_dir[OF cfg r] by simp_all
  show j: "page_entry_idx c vpn < NR_PTES_PER_PAGE c" by (rule in_range_entry[OF cfg])
  show "pte_at s a (page_entry_idx c vpn) = Some (heap s ! a ! page_entry_idx c vpn)"
    using pg j by (simp add: pte_at_def)
qed

lemma frame_refs_single:
  "frame_refs f [e] = (if pte_valid e \<and> unat (pte_pfn e) = f then 1 else 0)"
  by (simp add: frame_refs_def)

lemma add_dir_cur_pde:
  assumes "state_ok c s" "i < NR_PDES_PER_PAGE c"
  shows "cur_pdes (add_dir i pg s) ! i = Some (length (heap s))"
  using add_dir_procs(1)[of s i pg] state_ok_cur[OF assms(1)] assms(2) by simp

lemma alloc_entry_inv:
  assumes inv: "vm_inv c s" and a: "a \<in> set (owned s)" and j: "j < NR_PTES_PER_PAGE c"
    and e: "\<not> pte_valid (heap s ! a ! j)"
    and f: "f < NR_PAGEFRAMES c" "mapcounts s ! f = 0"
    and h: "heap s' = (heap s)[a := (heap s ! a)[j := map_pte rw (of_nat f) (heap s ! a ! j)]]"
    and same: "procs s' = procs s" "processes s' = processes s" "current s' = current s"
      "tlb s' = tlb s" "mapcounts s' = (mapcounts s)[f := 1]"
  shows "vm_inv c s'"
proof -
  let ?e = "map_pte rw (of_nat f) (heap s ! a ! j)"
  have fw: "unat (of_nat f :: u32) = f" using frame_word(1)[OF inv_okD(4)[OF inv] f(1)] .
  show ?thesis
  proof (rule entry_update_inv[OF inv a j h same(1,2,3)])
    show "pte_valid ?e \<longrightarrow> unat (pte_pfn ?e) < NR_PAGEFRAMES c"
      using f(1) fw by (simp add: map_pte_def)
    show "\<forall>g < NR_PAGEFRAMES c.
        mapcounts s' ! g + of_nat (frame_refs g [heap s ! a ! j]) =
        mapcounts s ! g + of_nat (frame_refs g [?e])"
      using e f fw inv_okD(5)[OF inv]
      by (auto simp add: same frame_refs_single map_pte_def nth_list_update)
  qed (simp_all add: same)
qed

lemma alloc_page_inv:
  assumes inv: "vm_inv c s" and r: "in_range c vpn"
    and junk: "length junk = NR_PTES_PER_PAGE c" "\<forall>e \<in> set junk. \<not> pte_valid e"
    and e: "\<forall>e. cur_pte c s vpn = Some e \<longrightarrow> \<not> pte_valid e"
    and al: "alloc_page c junk vpn rw s = Some (pfn, s')"
  shows "vm_inv c s'"
proof (cases "find_free (mapcounts s) 0")
  case None
  then have "s' = s" using al by (simp add: alloc_page_def)
  then show ?thesis using inv by simp
next
  case (Some f)
  let ?i = "page_dir_idx c vpn" and ?j = "page_entry_idx c vpn"
  note ok = inv_okD(1)[OF inv]
  have cfg: "config_ok c" using ok by (simp add: state_ok_def)
  have i: "?i < NR_PDES_PER_PAGE c" by (rule in_range_dir[OF cfg r])
  have j: "?j < NR_PTES_PER_PAGE c" by (rule in_range_entry[OF cfg])
  have f: "f < NR_PAGEFRAMES c" "mapcounts s ! f = 0"
    using Some inv_okD(5)[OF inv] by (simp_all add: find_free_Some)
  show ?thesis
  proof (cases "cur_pdes s ! ?i")
    case None
    let ?s1 = "add_dir ?i junk s" and ?n = "length (heap s)"
    have inv1: "vm_inv c ?s1" by (rule add_dir_inv[OF inv i None junk])
    have d1: "cur_pdes ?s1 ! ?i = Some ?n" by (rule add_dir_cur_pde[OF ok i])
    note pg1 = cur_dir_page[OF inv_okD(1)[OF inv1] r d1]
    have ent: "heap ?s1 ! ?n ! ?j = junk ! ?j" by (simp add: add_dir_fields)
    then have e1: "\<not> pte_valid (heap ?s1 ! ?n ! ?j)" using junk j by simp
    have "alloc_page c junk vpn rw s = Some (of_nat f,
       s\<lparr>mapcounts := (mapcounts s)[f := 1],
         heap := heap s @ [junk[?j := map_pte rw (of_nat f) (junk ! ?j)]],
         procs := (procs s)[current s := (procs s ! current s)
                    \<lparr>pagetable := \<lparr>pdes = (cur_pdes s)[?i := Some ?n]\<rparr>\<rparr>]\<rparr>)"
      by (rule alloc_page_absent[OF ok r Some None junk(1)])
    then have s': "s' = s\<lparr>mapcounts := (mapcounts s)[f := 1],
         heap := heap s @ [junk[?j := map_pte rw (of_nat f) (junk ! ?j)]],
         procs := (procs s)[current s := (procs s ! current s)
                    \<lparr>pagetable := \<lparr>pdes = (cur_pdes s)[?i := Some ?n]\<rparr>\<rparr>]\<rparr>"
      using al by simp
    show ?thesis
    proof (rule alloc_entry_inv[OF inv1 pg1(1,4) e1, of f s' rw])
      show "heap s' = (heap ?s1)[?n := (heap ?s1 ! ?n)[?j := map_pte rw (of_nat f) (heap ?s1 ! ?n ! ?j)]]"
        by (simp add: s' add_dir_fields)
      show "procs s' = procs ?s1" by (simp add: s' add_dir_def set_cur_pde_def cur_pdes_def)
    qed (simp_all add: s' add_dir_fields f)
  next
    case (Some a)
    note pg = cur_dir_page[OF ok r Some]
    have "cur_pte c s vpn = Some (heap s ! a ! ?j)"
      using pg(5,6) Some by (simp add: cur_pte_def proc_pte_def cur_pdes_def)
    then have e1: "\<not> pte_valid (heap s ! a ! ?j)" using e by simp
    have "alloc_page c junk vpn rw s = Some (of_nat f,
       s\<lparr>mapcounts := (mapcounts s)[f := 1],
         heap := (heap s)[a := (heap s ! a)[?j := map_pte rw (of_nat f) (heap s ! a ! ?j)]]\<rparr>)"
      by (rule alloc_page_present[OF ok r \<open>find_free (mapcounts s) 0 = Some f\<close> Some])
    then have s': "s' = s\<lparr>mapcounts := (mapcounts s)[f := 1],
         heap := (heap s)[a := (heap s ! a)[?j := map_pte rw (of_nat f) (heap s ! a ! ?j)]]\<rparr>"
      using al by simp
    show ?thesis
      by (rule alloc_entry_inv[OF inv pg(1,4) e1 f, of s' rw]) (simp_all add: s')
  qed
qed

lemma free_page_inv:
  assumes inv: "vm_inv c s" and r: "in_range c vpn" and fp: "free_page c vpn s = Some s'"
  shows "vm_inv c s'"
proof (cases "cur_pdes s ! page_dir_idx c vpn")
  case None
  note ok = inv_okD(1)[OF inv]
  have "page_dir_idx c vpn < length (cur_pdes s)"
    using in_range_dir[OF inv_okD(4)[OF inv] r] state_ok_cur[OF ok] by simp
  then have "s' = s" using fp None by (simp add: free_page_def Let_def)
  then show ?thesis using inv by simp
next
  case (Some a)
  let ?j = "page_entry_idx c vpn"
  let ?old = "heap s ! a ! ?j"
  let ?e = "?old\<lparr>pte_valid := False, pte_rw := 0, pte_pfn := 0\<rparr>"
  note ok = inv_okD(1)[OF inv]
  note pg = cur_dir_page[OF ok r Some]
  show ?thesis
  proof (cases "pte_valid ?old")
    case False
    then have "s' = s" using fp Some pg by (simp add: free_page_def Let_def)
    then show ?thesis using inv by simp
  next
    case True
    have "?old \<in> set (heap s ! a)" using pg by simp
    then have old: "unat (pte_pfn ?old) < NR_PAGEFRAMES c"
      using inv_okD(2)[OF inv] pg(1) True unfolding frames_ok_def by blast
    have s': "s' = pte_update a ?j (\<lambda>e. e\<lparr>pte_valid := False, pte_rw := 0, pte_pfn := 0\<rparr>)
        (s\<lparr>mapcounts := (mapcounts s)[unat (pte_pfn ?old) := mapcounts s ! unat (pte_pfn ?old) - 1],
           tlb := map (\<lambda>t. if tlb_valid t \<and> tlb_pfn t = pte_pfn ?old
                           then t\<lparr>tlb_valid := False, tlb_rw := 0, tlb_pfn := 0\<rparr> else t) (tlb s)\<rparr>)"
      using fp Some pg True old inv_okD(5)[OF inv] by (auto simp add: free_page_def Let_def)
    show ?thesis
    proof (rule entry_update_inv[OF inv pg(1,4), of s' ?e])
      show "heap s' = (heap s)[a := (heap s ! a)[?j := ?e]]" by (simp add: s' pte_update_def)
      show "pte_valid ?e \<longrightarrow> unat (pte_pfn ?e) < NR_PAGEFRAMES c" by simp
      show "\<forall>g < NR_PAGEFRAMES c.
          mapcounts s' ! g + of_nat (frame_refs g [?old]) = mapcounts s ! g + of_nat (frame_refs g [?e])"
        using True old inv_okD(5)[OF inv]
        by (auto simp add: s' pte_update_def frame_refs_single nth_list_update)
    qed (simp_all add: s' pte_update_def)
  qed
qed

lemma handle_page_fault_add_dir:
  assumes ok: "state_ok c s" and r: "in_range c vpn"
    and d: "cur_pdes s ! page_dir_idx c vpn = None"
  shows "handle_page_fault c vpn rw s =
         handle_page_fault c vpn rw
           (add_dir (page_dir_idx c vpn) (replicate (NR_PTES_PER_PAGE c) zero_pte) s)"
proof -
  let ?s1 = "add_dir (page_dir_idx c vpn) (replicate (NR_PTES_PER_PAGE c) zero_pte) s"
  have cfg: "config_ok c" using ok by (simp add: state_ok_def)
  have i: "page_dir_idx c vpn < NR_PDES_PER_PAGE c" by (rule in_range_dir[OF cfg r])
  have l: "length (cur_pdes s) = NR_PDES_PER_PAGE c" and cur: "current s < length (procs s)"
    using state_ok_cur[OF ok] by simp_all
  have l1: "length (cur_pdes ?s1) = NR_PDES_PER_PAGE c"
    using add_dir_procs(1)[OF cur] l by simp
  have d1: "cur_pdes ?s1 ! page_dir_idx c vpn = Some (length (heap s))"
    by (rule add_dir_cur_pde[OF ok i])
  show ?thesis
    unfolding handle_page_fault_def[of c vpn rw s] handle_page_fault_def[of c vpn rw ?s1]
    using i l l1 d d1 by (simp add: Let_def)
qed

lemma alloc_page_junk_irrelevant:
  assumes "page_dir_idx c vpn < length (cur_pdes s)" "cur_pdes s ! page_dir_idx c vpn = Some a"
  shows "alloc_page c junk vpn rw s = alloc_page c junk' vpn rw s"
  using assms by (simp add: alloc_page_def Let_def cur_pdes_def split: option.splits)

lemma handle_page_fault_present_inv:
  assumes inv: "vm_inv c s" and r: "in_range c vpn"
    and d: "cur_pdes s ! page_dir_idx c vpn = Some a"
    and hp: "handle_page_fault c vpn rw s = Some (res, s')"
    and na: "0 \<in> set (mapcounts s) \<or> mapcounts s' = mapcounts s"
  shows "vm_inv c s'"
proof -
  let ?j = "page_entry_idx c vpn"
  let ?e = "heap s ! a ! ?j"
  let ?old = "unat (pte_pfn ?e)"
  note ok = inv_okD(1)[OF inv]
  note pg = cur_dir_page[OF ok r d]
  note len = inv_okD(5)[OF inv]
  have step: "handle_page_fault c vpn rw s =
      (if \<not> pte_valid ?e then
         (case alloc_page c [] vpn rw s of None \<Rightarrow> None | Some (r, s2) \<Rightarrow> Some (r \<noteq> - 1, s2))
       else if pte_rw ?e \<noteq> rw \<and> rw AND ACCESS_WRITE \<noteq> 0 then
         (if pte_rw ?e AND ACCESS_READ \<noteq> 0 \<and> pte_private ?e AND ACCESS_WRITE \<noteq> 0 then
            (if ?old < length (mapcounts s) then
               (if 1 < mapcounts s ! ?old then
                  (case alloc_page c [] vpn 3 s of
                     None \<Rightarrow> None
                   | Some (new_pfn, s2) \<Rightarrow>
                       Some (True,
                         pte_update a ?j (\<lambda>e. e\<lparr>pte_pfn := new_pfn\<rparr>)
                           (pte_update a ?j (\<lambda>e. e\<lparr>pte_rw := pte_rw e OR ACCESS_WRITE\<rparr>)
                             (s2\<lparr>mapcounts := (mapcounts s2)[?old := mapcounts s2 ! ?old - 1]\<rparr>))))
                else Some (True, pte_update a ?j (\<lambda>e. e\<lparr>pte_rw := pte_rw e OR ACCESS_WRITE\<rparr>) s))
             else None)
          else Some (False, s))
       else Some (True, s))"
    using d pg(5,6) by (simp add: handle_page_fault_def Let_def)
  show ?thesis
  proof (cases "pte_valid ?e")
    case False
    then obtain r2 where "alloc_page c [] vpn rw s = Some (r2, s')"
      using hp step by (auto split: option.splits)
    then have "alloc_page c (replicate (NR_PTES_PER_PAGE c) zero_pte) vpn rw s = Some (r2, s')"
      using alloc_page_junk_irrelevant[OF pg(5) d, of "replicate (NR_PTES_PER_PAGE c) zero_pte" rw "[]"]
      by simp
    moreover have "cur_pte c s vpn = Some ?e"
      using pg(5,6) d by (simp add: cur_pte_def proc_pte_def cur_pdes_def)
    ultimately show ?thesis
      using False by (intro alloc_page_inv[OF inv r]) (auto simp: zero_pte_def)
  next
    case True
    have "?e \<in> set (heap s ! a)" using pg by simp
    then have old: "?old < NR_PAGEFRAMES c"
      using inv_okD(2)[OF inv] pg(1) True unfolding frames_ok_def by blast
    have oldl: "?old < length (mapcounts s)" using old len by simp
    consider (same) "s' = s"
      | (keep) "s' = pte_update a ?j (\<lambda>e. e\<lparr>pte_rw := pte_rw e OR ACCESS_WRITE\<rparr>) s"
      | (copy) new_pfn s2 where "1 < mapcounts s ! ?old" "alloc_page c [] vpn 3 s = Some (new_pfn, s2)"
          "s' = pte_update a ?j (\<lambda>e. e\<lparr>pte_pfn := new_pfn\<rparr>)
                 (pte_update a ?j (\<lambda>e. e\<lparr>pte_rw := pte_rw e OR ACCESS_WRITE\<rparr>)
                   (s2\<lparr>mapcounts := (mapcounts s2)[?old := mapcounts s2 ! ?old - 1]\<rparr>))"
    proof -
      have v: "(\<not> pte_valid ?e) = False" using True by simp
      have o: "(?old < length (mapcounts s)) = True" using oldl by simp
      show ?thesis
      proof (cases "pte_rw ?e \<noteq> rw \<and> rw AND ACCESS_WRITE \<noteq> 0")
        case False
        then have w: "(pte_rw ?e \<noteq> rw \<and> rw AND ACCESS_WRITE \<noteq> 0) = False" by simp
        have "Some (res, s') = Some (True, s)" using hp unfolding step v w by simp
        then show ?thesis using same by simp
      next
        case True
        then have w: "(pte_rw ?e \<noteq> rw \<and> rw AND ACCESS_WRITE \<noteq> 0) = True" by simp
        show ?thesis
        proof (cases "pte_rw ?e AND ACCESS_READ \<noteq> 0 \<and> pte_private ?e AND ACCESS_WRITE \<noteq> 0")
          case False
          then have p: "(pte_rw ?e AND ACCESS_READ \<noteq> 0 \<and> pte_private ?e AND ACCESS_WRITE \<noteq> 0) = False"
            by simp
          have "Some (res, s') = Some (False, s)" using hp unfolding step v w p by simp
          then show ?thesis using same by simp
        next
          case True
          then have p: "(pte_rw ?e AND ACCESS_READ \<noteq> 0 \<and> pte_private ?e AND ACCESS_WRITE \<noteq> 0) = True"
            by simp
          show ?thesis
          proof (cases "1 < mapcounts s ! ?old")
            case False
            then have m: "(1 < mapcounts s ! ?old) = False" by simp
            have "Some (res, s') =
                Some (True, pte_update a ?j (\<lambda>e. e\<lparr>pte_rw := pte_rw e OR ACCESS_WRITE\<rparr>) s)"
              using hp unfolding step v w p o m by simp
            then show ?thesis using keep by simp
          next
            case True
            then have m: "(1 < mapcounts s ! ?old) = True" by simp
            have eq: "(case alloc_page c [] vpn 3 s of
                       None \<Rightarrow> None
                     | Some (new_pfn, s2) \<Rightarrow>
                         Some (True,
                           pte_update a ?j (\<lambda>e. e\<lparr>pte_pfn := new_pfn\<rparr>)
                             (pte_update a ?j (\<lambda>e. e\<lparr>pte_rw := pte_rw e OR ACCESS_WRITE\<rparr>)
                               (s2\<lparr>mapcounts := (mapcounts s2)[?old := mapcounts s2 ! ?old - 1]\<rparr>)))) =
                  Some (res, s')"
              using hp unfolding step v w p o m by simp
            then obtain new_pfn s2 where al: "alloc_page c [] vpn 3 s = Some (new_pfn, s2)"
              by (cases "alloc_page c [] vpn 3 s") auto
            then have "s' = pte_update a ?j (\<lambda>e. e\<lparr>pte_pfn := new_pfn\<rparr>)
                   (pte_update a ?j (\<lambda>e. e\<lparr>pte_rw := pte_rw e OR ACCESS_WRITE\<rparr>)
                     (s2\<lparr>mapcounts := (mapcounts s2)[?old := mapcounts s2 ! ?old - 1]\<rparr>))"
              using eq by simp
            then show ?thesis using copy True al by blast
          qed
        qed
      qed
    qed
    then show ?thesis
    proof cases
      case same
      then show ?thesis using inv by simp
    next
      case keep
      let ?e' = "?e\<lparr>pte_rw := pte_rw ?e OR ACCESS_WRITE\<rparr>"
      show ?thesis
      proof (rule entry_update_inv[OF inv pg(1,4), of s' ?e'])
        show "heap s' = (heap s)[a := (heap s ! a)[?j := ?e']]" by (simp add: keep pte_update_def)
        show "pte_valid ?e' \<longrightarrow> unat (pte_pfn ?e') < NR_PAGEFRAMES c" using old by simp
        show "\<forall>g < NR_PAGEFRAMES c.
          mapcounts s' ! g + of_nat (frame_refs g [?e]) = mapcounts s ! g + of_nat (frame_refs g [?e'])"
          by (simp add: keep pte_update_def frame_refs_single)
      qed (simp_all add: keep pte_update_def)
    next
      case copy
      show ?thesis
      proof (cases "find_free (mapcounts s) 0")
        case None
        then have "s2 = s" using copy(2) by (simp add: alloc_page_def)
        then have mc: "mapcounts s' = (mapcounts s)[?old := mapcounts s ! ?old - 1]"
          using copy(3) by (simp add: pte_update_def)
        have "0 \<notin> set (mapcounts s)" using None by (simp add: find_free_None)
        then have "mapcounts s' = mapcounts s" using na by simp
        then have "mapcounts s ! ?old - 1 = mapcounts s ! ?old"
          using mc old len by (metis nth_list_update_eq)
        then show ?thesis by simp
      next
        case (Some f)
        let ?e' = "?e\<lparr>pte_valid := True, pte_rw := 3, pte_pfn := of_nat f\<rparr>"
        have f: "f < NR_PAGEFRAMES c" "mapcounts s ! f = 0"
          using Some len by (simp_all add: find_free_Some)
        have fw: "unat (of_nat f :: u32) = f" using frame_word(1)[OF inv_okD(4)[OF inv] f(1)] .
        have fo: "f \<noteq> ?old" using f(2) copy(1) by auto
        have "alloc_page c [] vpn 3 s = Some (of_nat f,
           s\<lparr>mapcounts := (mapcounts s)[f := 1],
             heap := (heap s)[a := (heap s ! a)[?j := map_pte 3 (of_nat f) ?e]]\<rparr>)"
          by (rule alloc_page_present[OF ok r Some d])
        then have s2: "new_pfn = of_nat f" "s2 = s\<lparr>mapcounts := (mapcounts s)[f := 1],
             heap := (heap s)[a := (heap s ! a)[?j := map_pte 3 (of_nat f) ?e]]\<rparr>"
          using copy(2) by simp_all
        show ?thesis
        proof (rule entry_update_inv[OF inv pg(1,4), of s' ?e'])
          show "heap s' = (heap s)[a := (heap s ! a)[?j := ?e']]"
            using pg(2,3,4)
            by (simp add: copy(3) s2 pte_update_def map_pte_def ACCESS_WRITE_def)
          show "pte_valid ?e' \<longrightarrow> unat (pte_pfn ?e') < NR_PAGEFRAMES c" using f(1) fw by simp
          show "\<forall>g < NR_PAGEFRAMES c.
            mapcounts s' ! g + of_nat (frame_refs g [?e]) = mapcounts s ! g + of_nat (frame_refs g [?e'])"
            using True f fw fo old len
            by (auto simp add: copy(3) s2 pte_update_def frame_refs_single nth_list_update)
        qed (simp_all add: copy(3) s2 pte_update_def)
      qed
    qed
  qed
qed

lemma handle_page_fault_inv:
  assumes inv: "vm_inv c s" and r: "in_range c vpn"
    and hp: "handle_page_fault c vpn rw s = Some (res, s')"
    and na: "0 \<in> set (mapcounts s) \<or> mapcounts s' = mapcounts s"
  shows "vm_inv c s'"
proof (cases "cur_pdes s ! page_dir_idx c vpn")
  case (Some a)
  show ?thesis by (rule handle_page_fault_present_inv[OF inv r Some hp na])
next
  case None
  let ?i = "page_dir_idx c vpn"
  let ?s1 = "add_dir ?i (replicate (NR_PTES_PER_PAGE c) zero_pte) s"
  note ok = inv_okD(1)[OF inv]
  have i: "?i < NR_PDES_PER_PAGE c" by (rule in_range_dir[OF inv_okD(4)[OF inv] r])
  have inv1: "vm_inv c ?s1"
    by (rule add_dir_inv[OF inv i None]) (simp_all add: zero_pte_def)
  have d1: "cur_pdes ?s1 ! ?i = Some (length (heap s))" by (rule add_dir_cur_pde[OF ok i])
  have hp1: "handle_page_fault c vpn rw ?s1 = Some (res, s')"
    using hp handle_page_fault_add_dir[OF ok r None, of rw] by simp
  have na1: "0 \<in> set (mapcounts ?s1) \<or> mapcounts s' = mapcounts ?s1"
    using na by (simp add: add_dir_fields)
  show ?thesis by (rule handle_page_fault_present_inv[OF inv1 r d1 hp1 na1])
qed

lemma frame_refs_cow_share [simp]: "frame_refs f (map cow_share pg) = frame_refs f pg"
  by (induction pg) (simp_all add: frame_refs_Cons)

lemma switch_resume_inv:
  assumes inv: "vm_inv c s" and fp: "find_pid (procs s) (processes s) p = Some nxt"
    and sw: "switch_process c p s = Some s'"
  shows "vm_inv c s'"
proof -
  note ok = inv_okD(1)[OF inv]
  have mem: "nxt \<in> set (processes s)" using find_pid_Some[OF fp] by simp
  have dl: "distinct (current s # processes s)" using ok by (simp add: state_ok_def live_def)
  obtain A B where AB: "processes s = A @ nxt # B" using mem by (meson split_list)
  have nA: "nxt \<notin> set A" using dl AB by auto
  have rm: "remove1 nxt (processes s) = A @ B" using AB nA by (simp add: remove1_append)
  have s': "s' = s\<lparr>tlb := flush_tlb (tlb s), processes := A @ B @ [current s],
                   current := nxt, ptbr := nxt\<rparr>"
    using sw fp rm by (auto simp add: switch_process_def switch_to_def)
  have pgs: "pages_of s' = pages_of s" by (simp add: s' pages_of_def fun_eq_iff)
  let ?C = "\<lambda>xs. concat (map (pages_of s) xs)"
  have lv: "live s = current s # A @ nxt # B" "live s' = nxt # A @ B @ [current s]"
    using AB by (simp_all add: live_def s')
  have ow: "owned s = pages_of s (current s) @ ?C A @ pages_of s nxt @ ?C B"
    "owned s' = pages_of s nxt @ ?C A @ ?C B @ pages_of s (current s)"
    using lv pgs by (simp_all add: owned_def)
  have set_eq: "set (owned s') = set (owned s)" "set (live s') = set (live s)"
    unfolding ow lv by auto
  have d1: "distinct (live s')" using dl AB unfolding lv by auto
  have "distinct (owned s)" using ok by (simp add: state_ok_def)
  then have d2: "distinct (owned s')" unfolding ow by auto
  have ok': "state_ok c s'"
    using ok d1 d2 unfolding state_ok_def set_eq by (simp add: s')
  have fo': "frames_ok c s'"
    using inv_okD(2)[OF inv] unfolding frames_ok_def set_eq by (simp add: s')
  have "refcount s' f = refcount s f" for f
    unfolding refcount_owned ow by (simp add: s')
  then have co': "counts_ok c s'"
    using inv_okD(3)[OF inv] by (simp add: counts_ok_def s')
  show ?thesis using ok' fo' co' by (simp add: vm_inv_def)
qed

lemma switch_fork_inv:
  assumes inv: "vm_inv c s" and fp: "find_pid (procs s) (processes s) p = None"
    and sw: "switch_process c p s = Some s'"
  shows "vm_inv c s'"
proof -
  note ok = inv_okD(1)[OF inv] and fo = inv_okD(2)[OF inv]
  let ?n = "length (heap s)" and ?P = "pages_of s (current s)"
  let ?R = "concat (map (pages_of s) (processes s))"
  obtain t where t: "switch_process c p s = Some t"
      "procs t = procs s @ [\<lparr>pid = p, pagetable = \<lparr>pdes = child_pdes (cur_pdes s) (length (heap s))\<rparr>\<rparr>]"
      "processes t = processes s @ [current s]"
      "current t = length (procs s)"
      "tlb t = flush_tlb (tlb s)"
      "mapcounts t = bump (entries_of s (current s)) (mapcounts s)"
      "length (heap t) = ?n + length ?P"
      "\<forall>a < ?n. heap t ! a = (if a \<in> set ?P then map cow_share (heap s ! a) else heap s ! a)"
      "\<forall>k < length ?P. heap t ! (?n + k) = map cow_share (heap s ! (?P ! k))"
    using switch_process_fork[OF ok fo fp] by blast
  have ts: "t = s'" using t(1) sw by simp
  have ok': "state_ok c t" and fo': "frames_ok c t"
    and ow': "owned t = [?n ..< ?n + length ?P] @ ?R @ ?P"
    using fork_preserves_ok[OF ok fo t(2,3,4) _ _ t(7,8,9)] t(5,6) by simp_all
  have ow: "owned s = ?P @ ?R" by (simp add: owned_def live_def)
  have lt: "\<forall>a \<in> set (owned s). a < ?n" using ok by (simp add: state_ok_def)
  have old: "frame_refs f (heap t ! a) = frame_refs f (heap s ! a)" if "a \<in> set (owned s)" for a f
    using t(8) lt that by simp
  have new: "(\<Sum>a\<leftarrow>[?n ..< ?n + length ?P]. frame_refs f (heap t ! a)) = frame_refs f (entries_of s (current s))" for f
  proof -
    have "[?n ..< ?n + length ?P] = map (\<lambda>k. ?n + k) [0 ..< length ?P]"
      using map_add_upt[of ?n "length ?P"] by (simp add: add.commute)
    then have "(\<Sum>a\<leftarrow>[?n ..< ?n + length ?P]. frame_refs f (heap t ! a)) =
          (\<Sum>k\<leftarrow>[0 ..< length ?P]. frame_refs f (heap t ! (?n + k)))"
      by (simp add: comp_def)
    also have "\<dots> = (\<Sum>k\<leftarrow>[0 ..< length ?P]. frame_refs f (heap s ! (?P ! k)))"
      using t(9) by (intro arg_cong[where f = sum_list] map_cong) auto
    also have "\<dots> = (\<Sum>a\<leftarrow>?P. frame_refs f (heap s ! a))"
    proof -
      have "map (\<lambda>k. frame_refs f (heap s ! (?P ! k))) [0 ..< length ?P] =
            map (\<lambda>a. frame_refs f (heap s ! a)) (map ((!) ?P) [0 ..< length ?P])"
        by simp
      then show ?thesis by (simp only: map_nth)
    qed
    finally show ?thesis by (simp add: entries_of_def frame_refs_concat comp_def)
  qed
  have rc: "refcount t f = refcount s f + frame_refs f (entries_of s (current s))" for f
  proof -
    have "(\<Sum>a\<leftarrow>owned s. frame_refs f (heap t ! a)) = (\<Sum>a\<leftarrow>owned s. frame_refs f (heap s ! a))"
      using old by (intro arg_cong[where f = sum_list] map_cong) auto
    then have "(\<Sum>a\<leftarrow>?R @ ?P. frame_refs f (heap t ! a)) = refcount s f"
      unfolding refcount_owned ow by simp
    then show ?thesis
      unfolding refcount_owned[of t] ow' using new[of f] by simp
  qed
  have co': "counts_ok c t"
    unfolding counts_ok_def
  proof (intro allI impI)
    fix f assume f: "f < NR_PAGEFRAMES c"
    then have "mapcounts t ! f = mapcounts s ! f + of_nat (frame_refs f (entries_of s (current s)))"
      using t(6) inv_okD(5)[OF inv] by (simp add: bump_nth)
    moreover have "mapcounts s ! f = of_nat (refcount s f)"
      using inv_okD(3)[OF inv] f by (simp add: counts_ok_def)
    ultimately show "mapcounts t ! f = of_nat (refcount t f)" by (simp add: rc)
  qed
  show ?thesis using ok' fo' co' ts by (simp add: vm_inv_def)
qed

lemma switch_process_inv:
  assumes "vm_inv c s" "switch_process c p s = Some s'"
  shows "vm_inv c s'"
proof (cases "find_pid (procs s) (processes s) p")
  case None
  show ?thesis by (rule switch_fork_inv[OF assms(1) None assms(2)])
next
  case (Some nxt)
  show ?thesis by (rule switch_resume_inv[OF assms(1) Some assms(2)])
qed

lemma length_insert_scan [simp]: "length (insert_scan t vpn rw pfn) = length t"
  by (induction t) auto

lemma insert_tlb_inv: "vm_inv c s \<Longrightarrow> vm_inv c (insert_tlb vpn rw pfn s)"
proof -
  assume inv: "vm_inv c s"
  let ?s = "insert_tlb vpn rw pfn s"
  have f: "heap ?s = heap s" "procs ?s = procs s" "processes ?s = processes s"
    "current ?s = current s" "mapcounts ?s = mapcounts s" "length (tlb ?s) = length (tlb s)"
    by (simp_all add: insert_tlb_def)
  have "pages_of ?s = pages_of s" by (simp add: pages_of_def fun_eq_iff f)
  then have o: "owned ?s = owned s" "live ?s = live s" by (simp_all add: owned_def live_def f)
  have "entries_of ?s = entries_of s" by (simp add: entries_of_def fun_eq_iff f \<open>pages_of ?s = pages_of s\<close>)
  then have "refcount ?s = refcount s" by (simp add: refcount_def fun_eq_iff o)
  then show ?thesis
    using inv unfolding vm_inv_def state_ok_def frames_ok_def counts_ok_def o f by simp
qed

lemma init_state_inv: "config_ok c \<Longrightarrow> vm_inv c (init_state c)"
proof -
  assume cfg: "config_ok c"
  have p: "ptrs (replicate n None) = []" for n by (induction n) simp_all
  have o: "owned (init_state c) = []" "live (init_state c) = [0]"
    by (simp_all add: owned_def live_def pages_of_def init_state_def p)
  have "refcount (init_state c) f = 0" for f by (simp add: refcount_owned o)
  then have "counts_ok c (init_state c)" by (simp add: counts_ok_def init_state_def)
  moreover have "state_ok c (init_state c)"
    using cfg unfolding state_ok_def o by (simp add: init_state_def)
  moreover have "frames_ok c (init_state c)" unfolding frames_ok_def o by simp
  ultimately show ?thesis by (simp add: vm_inv_def)
qed

lemma reachable_inv:
  assumes cfg: "config_ok c"
  shows "reachable c s \<Longrightarrow> vm_inv c s"
proof (induction rule: reachable.induct)
  case init
  show ?case by (rule init_state_inv[OF cfg])
next
  case (alloc s vpn junk rw pfn s')
  then show ?case using alloc_page_inv by blast
next
  case (free s vpn s')
  then show ?case using free_page_inv by blast
next
  case (fault s vpn rw res s')
  then show ?case using handle_page_fault_inv by blast
next
  case (switch s p s')
  then show ?case using switch_process_inv by blast
next
  case (insert s vpn rw pfn)
  then show ?case using insert_tlb_inv by blast
qed

section \<open>No access outside an array\<close>

text \<open>
  In a well-formed state every call with a page in range returns: no pointer is followed
  that is not an object of the store and no index leaves \<^verbatim>\<open>pdes\<close>, \<^verbatim>\<open>ptes\<close> or
  \<^verbatim>\<open>mapcounts\<close>.  So the runs of the simulator never stop in the model.
\<close>

lemma alloc_page_present_total:
  assumes ok: "state_ok c s" and r: "in_range c vpn"
    and d: "cur_pdes s ! page_dir_idx c vpn = Some a"
  shows "\<exists>pfn s'. alloc_page c junk vpn rw s = Some (pfn, s')"
proof (cases "find_free (mapcounts s) 0")
  case None
  then have "0 \<notin> set (mapcounts s)" by (simp add: find_free_None)
  then show ?thesis using alloc_page_full by blast
next
  case (Some f)
  show ?thesis using alloc_page_present[OF ok r Some d] by blast
qed

lemma handle_page_fault_present_total:
  assumes ok: "state_ok c s" and fr: "frames_ok c s" and r: "in_range c vpn"
    and d: "cur_pdes s ! page_dir_idx c vpn = Some a"
  shows "\<exists>res s'. handle_page_fault c vpn rw s = Some (res, s')"
proof -
  note p = cur_dir_page[OF ok r d]
  define e where "e = heap s ! a ! page_entry_idx c vpn"
  have len: "length (mapcounts s) = NR_PAGEFRAMES c" using ok by (simp add: state_ok_def)
  have fr': "pte_valid e \<Longrightarrow> unat (pte_pfn e) < length (mapcounts s)"
    using fr p(1,3,4) len unfolding frames_ok_def e_def by (metis nth_mem)
  obtain r1 s1 where a1: "alloc_page c [] vpn rw s = Some (r1, s1)"
    using alloc_page_present_total[OF ok r d] by blast
  obtain r3 s3 where a3: "alloc_page c [] vpn 3 s = Some (r3, s3)"
    using alloc_page_present_total[OF ok r d] by blast
  have pa: "pte_at s a (page_entry_idx c vpn) = Some e" using p(6) by (simp add: e_def)
  show ?thesis
  proof (cases "pte_valid e")
    case False
    then show ?thesis using p(5) d pa a1 by (simp add: handle_page_fault_def Let_def)
  next
    case True
    then show ?thesis using p(5) d pa a3 fr'
      by (auto simp: handle_page_fault_def Let_def)
  qed
qed

lemma handle_page_fault_total:
  assumes inv: "vm_inv c s" and r: "in_range c vpn"
  shows "\<exists>res s'. handle_page_fault c vpn rw s = Some (res, s')"
proof (cases "cur_pdes s ! page_dir_idx c vpn")
  case (Some a)
  show ?thesis
    using handle_page_fault_present_total[OF inv_okD(1)[OF inv] inv_okD(2)[OF inv] r Some] .
next
  case None
  define s0 where "s0 = add_dir (page_dir_idx c vpn) (replicate (NR_PTES_PER_PAGE c) zero_pte) s"
  have i: "page_dir_idx c vpn < NR_PDES_PER_PAGE c"
    using in_range_dir[OF inv_okD(4)[OF inv] r] .
  have inv0: "vm_inv c s0"
    unfolding s0_def by (rule add_dir_inv[OF inv i None]) (simp_all add: zero_pte_def)
  have d0: "cur_pdes s0 ! page_dir_idx c vpn = Some (length (heap s))"
    unfolding s0_def using add_dir_cur_pde[OF inv_okD(1)[OF inv] i] .
  have "handle_page_fault c vpn rw s = handle_page_fault c vpn rw s0"
    unfolding s0_def using handle_page_fault_add_dir[OF inv_okD(1)[OF inv] r None] .
  then show ?thesis
    using handle_page_fault_present_total[OF inv_okD(1)[OF inv0] inv_okD(2)[OF inv0] r d0] by simp
qed

lemma switch_process_total:
  assumes "state_ok c s" "frames_ok c s"
  shows "\<exists>s'. switch_process c p s = Some s'"
proof (cases "find_pid (procs s) (processes s) p")
  case None
  then show ?thesis using switch_process_fork[OF assms None] by blast
next
  case (Some n)
  then show ?thesis by (simp add: switch_process_def)
qed

lemma free_page_total:
  assumes ok: "state_ok c s" and fr: "frames_ok c s" and r: "in_range c vpn"
  shows "\<exists>s'. free_page c vpn s = Some s'"
proof (cases "cur_pdes s ! page_dir_idx c vpn")
  case None
  have "page_dir_idx c vpn < length (cur_pdes s)"
    using in_range_dir[OF _ r] ok state_ok_cur[OF ok] by (simp add: state_ok_def)
  then show ?thesis using None by (simp add: free_page_def Let_def)
next
  case (Some a)
  note d = cur_dir_page[OF ok r Some]
  have len: "length (mapcounts s) = NR_PAGEFRAMES c" using ok by (simp add: state_ok_def)
  have fr': "pte_valid (heap s ! a ! page_entry_idx c vpn) \<Longrightarrow>
      unat (pte_pfn (heap s ! a ! page_entry_idx c vpn)) < length (mapcounts s)"
    using fr d(1,3,4) len unfolding frames_ok_def by (metis nth_mem)
  show ?thesis using d(5,6) Some fr' by (simp add: free_page_def Let_def)
qed

lemma alloc_page_total:
  assumes ok: "state_ok c s" and r: "in_range c vpn" and j: "length junk = NR_PTES_PER_PAGE c"
  shows "\<exists>pfn s'. alloc_page c junk vpn rw s = Some (pfn, s')"
proof (cases "cur_pdes s ! page_dir_idx c vpn")
  case (Some a)
  show ?thesis using alloc_page_present_total[OF ok r Some] .
next
  case None
  show ?thesis
  proof (cases "find_free (mapcounts s) 0")
    case (Some f)
    show ?thesis using alloc_page_absent[OF ok r Some None j] by blast
  next
    case None
    then have "0 \<notin> set (mapcounts s)" by (simp add: find_free_None)
    then show ?thesis using alloc_page_full by blast
  qed
qed

lemma reachable_calls_defined:
  assumes cfg: "config_ok c" and re: "reachable c s" and r: "in_range c vpn"
  shows "\<exists>res s'. handle_page_fault c vpn rw s = Some (res, s')"
    and "\<exists>s'. free_page c vpn s = Some s'"
    and "\<exists>s'. switch_process c p s = Some s'"
    and "length junk = NR_PTES_PER_PAGE c \<Longrightarrow> \<exists>pfn s'. alloc_page c junk vpn rw s = Some (pfn, s')"
proof -
  have inv: "vm_inv c s" using reachable_inv[OF cfg re] .
  note ok = inv_okD(1)[OF inv] and fr = inv_okD(2)[OF inv]
  show "\<exists>res s'. handle_page_fault c vpn rw s = Some (res, s')"
    using handle_page_fault_total[OF inv r] .
  show "\<exists>s'. free_page c vpn s = Some s'" using free_page_total[OF ok fr r] .
  show "\<exists>s'. switch_process c p s = Some s'" using switch_process_total[OF ok fr] .
  show "length junk = NR_PTES_PER_PAGE c \<Longrightarrow> \<exists>pfn s'. alloc_page c junk vpn rw s = Some (pfn, s')"
    using alloc_page_total[OF ok r] .
qed


section \<open>Facts about the TLB\<close>

text \<open>
  What the two scans of the TLB compute: \<^const>\<open>lookup_scan\<close> answers from the first entry
  whose page number matches and whose permissions overlap the request, and
  \<^const>\<open>insert_scan\<close> stops at the first entry that is not valid or holds the page number.
\<close>

lemma lookup_scan_None:
  "lookup_scan t vpn rw = None \<longleftrightarrow> (\<forall>e \<in> set t. \<not> (tlb_vpn e = vpn \<and> tlb_rw e AND rw \<noteq> 0))"
  by (induction t) auto

lemma lookup_scan_Some:
  "lookup_scan t vpn rw = Some pfn \<Longrightarrow>
   \<exists>e \<in> set t. tlb_vpn e = vpn \<and> tlb_rw e AND rw \<noteq> 0 \<and> tlb_pfn e = pfn"
  by (induction t) (auto split: if_splits)

lemma and_read_bit: "(x :: u32) AND ACCESS_READ \<noteq> 0 \<longleftrightarrow> x AND ACCESS_READ = ACCESS_READ"
  unfolding ACCESS_READ_def by (auto simp: and_one_eq mod_2_eq_odd)

lemma and_write_bit: "(x :: u32) AND ACCESS_WRITE \<noteq> 0 \<longleftrightarrow> x AND ACCESS_WRITE = ACCESS_WRITE"
proof -
  have one: "x AND 2 ^ 1 = 2 ^ 1" if "bit x 1"
    by (rule bit_eqI) (use that in \<open>auto simp: bit_and_iff bit_exp_iff bit_2_iff\<close>)
  have zero: "x AND 2 ^ 1 = 0" if "\<not> bit x 1"
    using that and_exp_eq_0_iff_not_bit[of x 1] by blast
  show ?thesis using one zero by (cases "bit x 1") (auto simp: ACCESS_WRITE_def)
qed

lemma lookup_tlb_single_bit:
  assumes rw: "rw = ACCESS_READ \<or> rw = ACCESS_WRITE"
    and z: "\<forall>e \<in> set (tlb s). \<not> tlb_valid e \<longrightarrow> tlb_rw e = 0"
  shows "lookup_tlb vpn rw s \<noteq> None \<longleftrightarrow>
         (\<exists>e \<in> set (tlb s). tlb_valid e \<and> tlb_vpn e = vpn \<and> tlb_rw e AND rw = rw)"
proof -
  have bit: "x AND rw \<noteq> 0 \<longleftrightarrow> x AND rw = rw" for x
    using rw and_read_bit and_write_bit by blast
  have nz: "rw \<noteq> 0" using rw by (auto simp: ACCESS_READ_def ACCESS_WRITE_def)
  have "lookup_tlb vpn rw s \<noteq> None \<longleftrightarrow> (\<exists>e \<in> set (tlb s). tlb_vpn e = vpn \<and> tlb_rw e AND rw \<noteq> 0)"
    by (simp add: lookup_tlb_def lookup_scan_None)
  also have "\<dots> \<longleftrightarrow> (\<exists>e \<in> set (tlb s). tlb_valid e \<and> tlb_vpn e = vpn \<and> tlb_rw e AND rw = rw)"
  proof (intro bex_cong refl)
    fix e assume e: "e \<in> set (tlb s)"
    show "(tlb_vpn e = vpn \<and> tlb_rw e AND rw \<noteq> 0) \<longleftrightarrow>
          (tlb_valid e \<and> tlb_vpn e = vpn \<and> tlb_rw e AND rw = rw)"
    proof (cases "tlb_valid e")
      case True
      then show ?thesis using bit by simp
    next
      case False
      then have "tlb_rw e = 0" using z e by simp
      then show ?thesis using False nz by auto
    qed
  qed
  finally show ?thesis .
qed

lemma insert_scan_full:
  "\<forall>e \<in> set t. tlb_valid e \<and> tlb_vpn e \<noteq> vpn \<Longrightarrow> insert_scan t vpn rw pfn = t"
  by (induction t) auto

lemma insert_scan_hit:
  assumes "\<forall>e \<in> set pre. tlb_valid e \<and> tlb_vpn e \<noteq> vpn" "tlb_valid e" "tlb_vpn e = vpn"
  shows "insert_scan (pre @ e # post) vpn rw pfn = pre @ e\<lparr>tlb_rw := rw, tlb_pfn := pfn\<rparr> # post"
  using assms by (induction pre) auto

lemma insert_scan_fill:
  assumes "\<forall>e \<in> set pre. tlb_valid e \<and> tlb_vpn e \<noteq> vpn" "\<not> tlb_valid e"
  shows "insert_scan (pre @ e # post) vpn rw pfn =
         pre @ e\<lparr>tlb_valid := True, tlb_pfn := pfn, tlb_rw := rw, tlb_vpn := vpn\<rparr> # post"
  using assms by (induction pre) auto

text \<open>
  The flush of \<^const>\<open>switch_process\<close> clears the leading run of valid entries and
  leaves the rest of the TLB as it was; the queue gets the old current process at its tail.
\<close>

lemma flush_tlb_prefix:
  "flush_tlb t = map (\<lambda>e. e\<lparr>tlb_valid := False, tlb_rw := 0, tlb_vpn := 0, tlb_pfn := 0, tlb_private := 0\<rparr>)
                   (takeWhile tlb_valid t) @ dropWhile tlb_valid t"
  by (induction t) auto

lemma flush_tlb_all_invalid:
  "(\<forall>e \<in> set (flush_tlb t). \<not> tlb_valid e) \<longleftrightarrow> (\<forall>e \<in> set (dropWhile tlb_valid t). \<not> tlb_valid e)"
  by (auto simp: flush_tlb_prefix)

lemma switch_process_queue_ptbr:
  assumes "switch_process c p s = Some s'"
  shows "processes s' =
           (case find_pid (procs s) (processes s) p of
              None \<Rightarrow> processes s | Some nxt \<Rightarrow> remove1 nxt (processes s)) @ [current s]"
    and "ptbr s' = current s'" and "tlb s' = flush_tlb (tlb s)"
  using assms by (auto simp: switch_process_def switch_to_def split: option.splits)


text \<open>
  Only \<^verbatim>\<open>free_page\<close>, \<^verbatim>\<open>switch_process\<close> and \<^verbatim>\<open>insert_tlb\<close> write the TLB, and each of them
  that clears \<^verbatim>\<open>valid\<close> clears \<^verbatim>\<open>rw\<close> too.  So on every run an entry that is not valid has
  \<open>rw = 0\<close>, and for an access of one bit the overlap test of \<^verbatim>\<open>lookup_tlb\<close> is the subset
  test on a valid entry.
\<close>

lemma alloc_page_tlb: "alloc_page c junk vpn rw s = Some (r, s') \<Longrightarrow> tlb s' = tlb s"
  by (auto simp: alloc_page_def Let_def pte_update_def add_dir_def set_cur_pde_def
      split: option.splits if_splits prod.splits)

lemma free_page_tlb:
  assumes "free_page c vpn s = Some s'"
  shows "tlb s' = tlb s \<or>
    (\<exists>f. tlb s' = map (\<lambda>t. if tlb_valid t \<and> tlb_pfn t = f
                            then t\<lparr>tlb_valid := False, tlb_rw := 0, tlb_pfn := 0\<rparr> else t) (tlb s))"
  using assms
  by (auto simp: free_page_def Let_def pte_update_def split: option.splits if_splits)

lemma handle_page_fault_tlb:
  assumes "handle_page_fault c vpn rw s = Some (r, s')"
  shows "tlb s' = tlb s"
proof -
  define i where "i = page_dir_idx c vpn"
  define j where "j = page_entry_idx c vpn"
  define ps where "ps = (case cur_pdes s ! i of
                 Some a \<Rightarrow> (a, s)
               | None \<Rightarrow> (length (heap s), add_dir i (replicate (NR_PTES_PER_PAGE c) zero_pte) s))"
  obtain pd s1 where ps1: "ps = (pd, s1)" by (cases ps)
  have t1: "tlb s1 = tlb s"
    using ps1 unfolding ps_def by (auto simp: add_dir_fields split: option.splits)
  have al: "tlb s2 = tlb s" if "alloc_page c [] vpn x s1 = Some (y, s2)" for x y s2
    using alloc_page_tlb[OF that] t1 by simp
  from assms have
    "(case pte_at s1 pd j of
                 None \<Rightarrow> None
               | Some pte \<Rightarrow>
                   if \<not> pte_valid pte then
                     (case alloc_page c [] vpn rw s1 of
                        None \<Rightarrow> None
                      | Some (r, s2) \<Rightarrow> Some (r \<noteq> - 1, s2))
                   else if pte_rw pte \<noteq> rw \<and> rw AND ACCESS_WRITE \<noteq> 0 then
                     (if pte_rw pte AND ACCESS_READ \<noteq> 0 \<and> pte_private pte AND ACCESS_WRITE \<noteq> 0 then
                        (if unat (pte_pfn pte) < length (mapcounts s1) then
                           (if 1 < mapcounts s1 ! unat (pte_pfn pte) then
                              (let old_pfn = pte_pfn pte
                               in case alloc_page c [] vpn 3 s1 of
                                    None \<Rightarrow> None
                                  | Some (new_pfn, s2) \<Rightarrow>
                                      Some (True,
                                        pte_update pd j (\<lambda>e. e\<lparr>pte_pfn := new_pfn\<rparr>)
                                          (pte_update pd j (\<lambda>e. e\<lparr>pte_rw := pte_rw e OR ACCESS_WRITE\<rparr>)
                                            (s2\<lparr>mapcounts := (mapcounts s2)[unat old_pfn :=
                                                   mapcounts s2 ! unat old_pfn - 1]\<rparr>))))
                            else
                              Some (True,
                                pte_update pd j (\<lambda>e. e\<lparr>pte_rw := pte_rw e OR ACCESS_WRITE\<rparr>) s1))
                         else None)
                      else Some (False, s1))
                   else Some (True, s1)) = Some (r, s')"
    using ps1 unfolding handle_page_fault_def Let_def i_def[symmetric] j_def[symmetric] ps_def[symmetric]
    by (simp split: if_splits)
  then show ?thesis
    using t1 al
    by (auto simp: Let_def pte_update_def split: option.splits if_splits prod.splits)
qed

lemma insert_scan_rw_clear:
  "\<forall>e \<in> set t. \<not> tlb_valid e \<longrightarrow> tlb_rw e = 0 \<Longrightarrow>
   \<forall>e \<in> set (insert_scan t vpn rw pfn). \<not> tlb_valid e \<longrightarrow> tlb_rw e = 0"
  by (induction t) auto

lemma flush_tlb_rw_clear:
  "\<forall>e \<in> set t. \<not> tlb_valid e \<longrightarrow> tlb_rw e = 0 \<Longrightarrow>
   \<forall>e \<in> set (flush_tlb t). \<not> tlb_valid e \<longrightarrow> tlb_rw e = 0"
  by (induction t) auto

lemma step_rw_clear:
  assumes "step c ev s = Some s'" "\<forall>e \<in> set (tlb s). \<not> tlb_valid e \<longrightarrow> tlb_rw e = 0"
  shows "\<forall>e \<in> set (tlb s'). \<not> tlb_valid e \<longrightarrow> tlb_rw e = 0"
proof (cases ev)
  case (Alloc junk vpn rw)
  then obtain r where "alloc_page c junk vpn rw s = Some (r, s')" using assms(1) by auto
  then show ?thesis using alloc_page_tlb assms(2) by metis
next
  case (Free vpn)
  then have "free_page c vpn s = Some s'" using assms(1) by simp
  from free_page_tlb[OF this] show ?thesis using assms(2) by auto
next
  case (Fault vpn rw)
  then obtain r where "handle_page_fault c vpn rw s = Some (r, s')" using assms(1) by auto
  then show ?thesis using handle_page_fault_tlb assms(2) by metis
next
  case (Switch p)
  then have "switch_process c p s = Some s'" using assms(1) by simp
  then have "tlb s' = flush_tlb (tlb s)" by (rule switch_process_queue_ptbr(3))
  then show ?thesis using flush_tlb_rw_clear[OF assms(2)] by simp
next
  case (Insert vpn rw pfn)
  then have "tlb s' = insert_scan (tlb s) vpn rw pfn" using assms(1) by (auto simp: insert_tlb_def)
  then show ?thesis using insert_scan_rw_clear[OF assms(2)] by simp
qed

lemma run_rw_clear:
  "run c evs s = Some s' \<Longrightarrow> \<forall>e \<in> set (tlb s). \<not> tlb_valid e \<longrightarrow> tlb_rw e = 0 \<Longrightarrow>
   \<forall>e \<in> set (tlb s'). \<not> tlb_valid e \<longrightarrow> tlb_rw e = 0"
proof (induction evs arbitrary: s)
  case Nil
  then show ?case by simp
next
  case (Cons ev evs)
  then obtain s1 where s1: "step c ev s = Some s1" "run c evs s1 = Some s'"
    by (auto split: option.splits)
  show ?case using Cons.IH[OF s1(2) step_rw_clear[OF s1(1) Cons.prems(2)]] .
qed

lemma init_rw_clear: "\<forall>e \<in> set (tlb (init_state c)). \<not> tlb_valid e \<longrightarrow> tlb_rw e = 0"
  by (simp add: init_state_def zero_tlb_def)

lemma lookup_scan_first:
  assumes rw: "rw = ACCESS_READ \<or> rw = ACCESS_WRITE"
  shows "\<forall>e \<in> set t. \<not> tlb_valid e \<longrightarrow> tlb_rw e = 0 \<Longrightarrow> lookup_scan t vpn rw = lookup_first t vpn rw"
proof (induction t)
  case Nil
  then show ?case by simp
next
  case (Cons e t)
  have bit: "x AND rw \<noteq> 0 \<longleftrightarrow> x AND rw = rw" for x
    using rw and_read_bit and_write_bit by blast
  have nz: "rw \<noteq> 0" using rw by (auto simp: ACCESS_READ_def ACCESS_WRITE_def)
  have "(tlb_vpn e = vpn \<and> tlb_rw e AND rw \<noteq> 0) \<longleftrightarrow>
        (tlb_valid e \<and> tlb_vpn e = vpn \<and> tlb_rw e AND rw = rw)"
  proof (cases "tlb_valid e")
    case True
    then show ?thesis using bit by simp
  next
    case False
    then have "tlb_rw e = 0" using Cons.prems by simp
    then show ?thesis using False nz by auto
  qed
  then show ?case using Cons by simp
qed


section \<open>The TLB claims\<close>

text \<open>
  C6 (TLB lookup condition), as amended.  In every state a run of the simulator reaches
  from its initial state, and for an access that is \<^verbatim>\<open>ACCESS_READ\<close> or \<^verbatim>\<open>ACCESS_WRITE\<close>,
  \<^verbatim>\<open>lookup_tlb\<close> is the lookup of the specification: it yields the frame of the first valid
  entry with the page number whose \<open>rw\<close> contains the access, and it hits exactly when
  there is such an entry.
\<close>

theorem lookup_tlb_single_access:
  assumes "run c evs (init_state c) = Some s" and "rw = ACCESS_READ \<or> rw = ACCESS_WRITE"
  shows "lookup_tlb vpn rw s = lookup_spec vpn rw s \<and>
         (lookup_tlb vpn rw s \<noteq> None \<longleftrightarrow>
            (\<exists>e \<in> set (tlb s). tlb_valid e \<and> tlb_vpn e = vpn \<and> tlb_rw e AND rw = rw))"
proof -
  have z: "\<forall>e \<in> set (tlb s). \<not> tlb_valid e \<longrightarrow> tlb_rw e = 0"
    using run_rw_clear[OF assms(1) init_rw_clear] .
  show ?thesis
    using lookup_scan_first[OF assms(2) z] lookup_tlb_single_bit[OF assms(2) z]
    by (simp add: lookup_tlb_def lookup_spec_def)
qed

theorem lookup_tlb_single_access_witness:
  "run c2 [Fault 0 ACCESS_READ, Insert 0 ACCESS_READ 0] (init_state c2) = Some ex_cached_ro \<and>
   lookup_tlb 0 ACCESS_READ ex_cached_ro = Some 0 \<and>
   lookup_spec 0 ACCESS_READ ex_cached_ro = Some 0 \<and>
   lookup_tlb 0 ACCESS_WRITE ex_cached_ro = None \<and>
   lookup_spec 0 ACCESS_WRITE ex_cached_ro = None"
proof -
  note r = ex_cached_ro_reached
  have a: "lookup_tlb 0 ACCESS_READ ex_cached_ro = Some 0"
    by (simp add: vm_eval ex_cached_ro_def)
  have b: "lookup_tlb 0 ACCESS_WRITE ex_cached_ro = None"
    by (simp add: vm_eval ex_cached_ro_def)
  have a': "lookup_spec 0 ACCESS_READ ex_cached_ro = Some 0"
    using lookup_tlb_single_access [OF r, of ACCESS_READ 0] a by simp
  have b': "lookup_spec 0 ACCESS_WRITE ex_cached_ro = None"
    using lookup_tlb_single_access [OF r, of ACCESS_WRITE 0] b by simp
  show ?thesis using r a b a' b' by simp
qed

text \<open>
  The claim as stated also covers a read-write access, and there it fails:
  \<^verbatim>\<open>lookup_tlb\<close> tests \<^verbatim>\<open>tlb[i].rw & rw\<close>, an overlap.  With page 0 cached read-only, the
  lookup for a read-write access to page 0 hits and yields the frame, where the subset test
  of the claim misses.
\<close>

theorem lookup_tlb_readonly_entry_serves_readwrite:
  "run c2 [Fault 0 ACCESS_READ, Insert 0 ACCESS_READ 0] (init_state c2) = Some ex_cached_ro \<and>
   tlb ex_cached_ro ! 0 =
     \<lparr>tlb_valid = True, tlb_rw = ACCESS_READ, tlb_vpn = 0, tlb_pfn = 0, tlb_private = 0\<rparr> \<and>
   lookup_tlb 0 (ACCESS_READ OR ACCESS_WRITE) ex_cached_ro = Some 0 \<and>
   lookup_spec 0 (ACCESS_READ OR ACCESS_WRITE) ex_cached_ro = None"
  by (simp add: vm_eval ex_cached_ro_def lookup_spec_def)

text \<open>
  C7 (TLB insert never duplicates).  The scan of \<^verbatim>\<open>insert_tlb\<close> leaves at the first invalid
  slot, so an entry for the page that lies behind a hole is not found: inserting page 1 again
  fills the hole and the TLB then holds two valid entries for page 1, the old one unchanged.
\<close>

theorem insert_tlb_duplicates_behind_hole:
  "tlb ex_hole =
     [\<lparr>tlb_valid = False, tlb_rw = 0, tlb_vpn = 0, tlb_pfn = 0, tlb_private = 0\<rparr>,
      \<lparr>tlb_valid = True, tlb_rw = 3, tlb_vpn = 1, tlb_pfn = 1, tlb_private = 0\<rparr>] \<and>
   tlb (insert_tlb 1 ACCESS_READ 1 ex_hole) =
     [\<lparr>tlb_valid = True, tlb_rw = ACCESS_READ, tlb_vpn = 1, tlb_pfn = 1, tlb_private = 0\<rparr>,
      \<lparr>tlb_valid = True, tlb_rw = 3, tlb_vpn = 1, tlb_pfn = 1, tlb_private = 0\<rparr>]"
  by (simp add: vm_eval ex_hole_def)

section \<open>The claims on switching\<close>

text \<open>
  C4 (switch postcondition).  The flush loop of \<^verbatim>\<open>switch_process\<close> leaves at the first
  invalid entry.  With a hole in the first slot nothing is flushed: after the switch the
  new process runs with the old process's translation of page 1 still valid.
\<close>

theorem switch_process_keeps_entry_behind_hole:
  "map_option (\<lambda>s. (current s, tlb s)) (switch_process c2 1 ex_hole) =
     Some (1,
       [\<lparr>tlb_valid = False, tlb_rw = 0, tlb_vpn = 0, tlb_pfn = 0, tlb_private = 0\<rparr>,
        \<lparr>tlb_valid = True, tlb_rw = 3, tlb_vpn = 1, tlb_pfn = 1, tlb_private = 0\<rparr>])"
  by (simp add: vm_eval ex_hole_def)

text \<open>
  C3 (fork semantics).  In a well-formed state whose valid entries name frames of the
  machine, \<^verbatim>\<open>switch_process\<close> with a pid that no queued process carries creates a new
  process with that pid and makes it the running one, the parent going to the queue.  For
  every page in range that the parent maps, parent and child afterwards both hold a valid
  entry with the parent's frame and \<open>rw = ACCESS_READ\<close>; their \<open>private\<close> is the parent's
  former \<open>rw\<close> when the parent's \<open>private\<close> was zero, and the parent's former \<open>private\<close>
  otherwise.  Each frame count grows (in unsigned arithmetic) by the number of valid entries
  of the parent that map the frame, so by exactly 1 for a frame the parent maps once.  The
  child's directory pages are objects the store did not hold before, as many as the parent's
  and none of them one of the parent's, and the new state is well-formed again: no page
  belongs to two page tables.
\<close>

theorem switch_process_fork_semantics:
  assumes "state_ok c s" "frames_ok c s" "\<forall>q \<in> set (processes s). pid (procs s ! q) \<noteq> p"
  shows "\<exists>s'. switch_process c p s = Some s' \<and>
     current s' = length (procs s) \<and> pid (procs s' ! current s') = p \<and>
     current s \<in> set (processes s') \<and>
     (\<forall>vpn e. in_range c vpn \<and> cur_pte c s vpn = Some e \<and> pte_valid e \<longrightarrow>
        (\<exists>pe ce. proc_pte c s' (current s) vpn = Some pe \<and> proc_pte c s' (current s') vpn = Some ce \<and>
           pte_valid ce \<and> pte_pfn ce = pte_pfn e \<and> pte_valid pe \<and> pte_pfn pe = pte_pfn e \<and>
           pte_rw pe = ACCESS_READ \<and> pte_rw ce = ACCESS_READ \<and>
           (pte_private e = 0 \<longrightarrow> pte_private pe = pte_rw e \<and> pte_private ce = pte_rw e) \<and>
           (pte_private e \<noteq> 0 \<longrightarrow> pte_private pe = pte_private e \<and> pte_private ce = pte_private e))) \<and>
     (\<forall>f < NR_PAGEFRAMES c.
        mapcounts s' ! f = mapcounts s ! f + of_nat (frame_refs f (entries_of s (current s))) \<and>
        (frame_refs f (entries_of s (current s)) = 1 \<longrightarrow> mapcounts s' ! f = mapcounts s ! f + 1)) \<and>
     (\<forall>b \<in> set (pages_of s' (current s')).
        length (heap s) \<le> b \<and> b < length (heap s') \<and> b \<notin> set (pages_of s' (current s))) \<and>
     length (pages_of s' (current s')) = length (pages_of s (current s)) \<and>
     state_ok c s' \<and> frames_ok c s'"
proof -
  have nf: "find_pid (procs s) (processes s) p = None"
    using assms(3) by (simp add: find_pid_None)
  obtain s' where s': "switch_process c p s = Some s'"
      "procs s' = procs s @ [\<lparr>pid = p, pagetable = \<lparr>pdes = child_pdes (cur_pdes s) (length (heap s))\<rparr>\<rparr>]"
      "processes s' = processes s @ [current s]"
      "current s' = length (procs s)"
      "tlb s' = flush_tlb (tlb s)"
      "mapcounts s' = bump (entries_of s (current s)) (mapcounts s)"
      "length (heap s') = length (heap s) + length (pages_of s (current s))"
      "\<forall>a < length (heap s). heap s' ! a =
              (if a \<in> set (pages_of s (current s)) then map cow_share (heap s ! a) else heap s ! a)"
      "\<forall>k < length (pages_of s (current s)).
              heap s' ! (length (heap s) + k) = map cow_share (heap s ! (pages_of s (current s) ! k))"
    using switch_process_fork[OF assms(1,2) nf] by blast
  have ok': "state_ok c s'" and fr': "frames_ok c s'"
    using fork_preserves_ok[OF assms(1,2) s'(2,3,4) _ _ s'(7,8,9)] s'(5,6) by simp_all
  have cur: "current s < length (procs s)" using state_ok_cur[OF assms(1)] by simp
  have len: "length (mapcounts s) = NR_PAGEFRAMES c" using assms(1) by (simp add: state_ok_def)
  have entries: "\<forall>vpn e. in_range c vpn \<and> cur_pte c s vpn = Some e \<and> pte_valid e \<longrightarrow>
        (\<exists>pe ce. proc_pte c s' (current s) vpn = Some pe \<and> proc_pte c s' (current s') vpn = Some ce \<and>
           pte_valid ce \<and> pte_pfn ce = pte_pfn e \<and> pte_valid pe \<and> pte_pfn pe = pte_pfn e \<and>
           pte_rw pe = ACCESS_READ \<and> pte_rw ce = ACCESS_READ \<and>
           (pte_private e = 0 \<longrightarrow> pte_private pe = pte_rw e \<and> pte_private ce = pte_rw e) \<and>
           (pte_private e \<noteq> 0 \<longrightarrow> pte_private pe = pte_private e \<and> pte_private ce = pte_private e))"
  proof (intro allI impI)
    fix vpn e assume h: "in_range c vpn \<and> cur_pte c s vpn = Some e \<and> pte_valid e"
    have "proc_pte c s' (current s) vpn = Some (cow_share e)"
      and "proc_pte c s' (current s') vpn = Some (cow_share e)"
      using fork_entry[OF assms(1) _ _ s'(2,7,8,9)] h s'(4) by simp_all
    then show "\<exists>pe ce. proc_pte c s' (current s) vpn = Some pe \<and> proc_pte c s' (current s') vpn = Some ce \<and>
           pte_valid ce \<and> pte_pfn ce = pte_pfn e \<and> pte_valid pe \<and> pte_pfn pe = pte_pfn e \<and>
           pte_rw pe = ACCESS_READ \<and> pte_rw ce = ACCESS_READ \<and>
           (pte_private e = 0 \<longrightarrow> pte_private pe = pte_rw e \<and> pte_private ce = pte_rw e) \<and>
           (pte_private e \<noteq> 0 \<longrightarrow> pte_private pe = pte_private e \<and> pte_private ce = pte_private e)"
      using h by (simp add: cow_share_def)
  qed
  have counts: "\<forall>f < NR_PAGEFRAMES c.
        mapcounts s' ! f = mapcounts s ! f + of_nat (frame_refs f (entries_of s (current s))) \<and>
        (frame_refs f (entries_of s (current s)) = 1 \<longrightarrow> mapcounts s' ! f = mapcounts s ! f + 1)"
    using s'(6) len by (simp add: bump_nth)
  have new_pages: "pages_of s' (current s') = [length (heap s) ..< length (heap s) + length (pages_of s (current s))]"
    using s'(2,4) by (simp add: pages_of_def ptrs_child_pdes cur_pdes_def)
  have "procs s' ! current s = procs s ! current s" using s'(2) cur by (simp add: nth_append)
  then have par_pages: "pages_of s' (current s) = pages_of s (current s)" by (simp add: pages_of_def)
  have "\<forall>a \<in> set (pages_of s (current s)). a < length (heap s)"
    using assms(1) cur_pages_owned[of s] by (auto simp: state_ok_def)
  then have fresh: "\<forall>b \<in> set (pages_of s' (current s')).
        length (heap s) \<le> b \<and> b < length (heap s') \<and> b \<notin> set (pages_of s' (current s))"
    using new_pages par_pages s'(7) by auto
  have "pid (procs s' ! current s') = p" using s'(2,4) by simp
  moreover have "current s \<in> set (processes s')" using s'(3) by simp
  moreover have "length (pages_of s' (current s')) = length (pages_of s (current s))"
    using new_pages by simp
  ultimately show ?thesis
    using s'(1,4) entries counts fresh ok' fr' by blast
qed

theorem switch_process_fork_semantics_witness:
  "state_ok c2 ex_mapped \<and> frames_ok c2 ex_mapped \<and> processes ex_mapped = [] \<and>
   in_range c2 0 \<and>
   cur_pte c2 ex_mapped 0 = Some \<lparr>pte_valid = True, pte_rw = 3, pte_pfn = 0, pte_private = 0\<rparr> \<and>
   switch_process c2 7 ex_mapped = Some ex_full \<and>
   current ex_full = 1 \<and> pid (procs ex_full ! 1) = 7 \<and>
   proc_pte c2 ex_full 0 0 = Some \<lparr>pte_valid = True, pte_rw = ACCESS_READ, pte_pfn = 0, pte_private = 3\<rparr> \<and>
   proc_pte c2 ex_full 1 0 = Some \<lparr>pte_valid = True, pte_rw = ACCESS_READ, pte_pfn = 0, pte_private = 3\<rparr> \<and>
   mapcounts ex_mapped ! 0 = 1 \<and> mapcounts ex_full ! 0 = 2 \<and>
   pages_of ex_full 0 = [0] \<and> pages_of ex_full 1 = [1] \<and> length (heap ex_mapped) = 1"
proof -
  have q: "\<forall>q \<in> set (processes ex_mapped). pid (procs ex_mapped ! q) \<noteq> 7"
    by (simp add: ex_mapped_def)
  from switch_process_fork_semantics [OF ex_mapped_ok [THEN conjunct1] ex_mapped_ok [THEN conjunct2] q]
  obtain s' where "switch_process c2 7 ex_mapped = Some s'" by blast
  then have "switch_process c2 7 ex_mapped = Some ex_full" using ex_mapped_fork by simp
  then show ?thesis
    using ex_mapped_ok by (simp add: ok_eval vm_eval ex_mapped_def ex_full_def)
qed

text \<open>
  C10 (switching to the running process's own pid), as amended.  \<^verbatim>\<open>switch_process\<close> looks
  for the pid in the ready queue only (\<open>find_pid\<close> walks \<open>processes\<close>).  When no queued
  process carries the pid of the running process, a call with that pid forks: a new process
  object becomes the running one, the former one is queued, both are live and both carry the
  pid.
\<close>


theorem switch_process_own_pid_forks:
  assumes "state_ok c s" "frames_ok c s"
    and "\<forall>q \<in> set (processes s). pid (procs s ! q) \<noteq> pid (procs s ! current s)"
  shows "\<exists>s'. switch_process c (pid (procs s ! current s)) s = Some s' \<and>
     current s' = length (procs s) \<and> current s' \<noteq> current s \<and>
     length (procs s') = Suc (length (procs s)) \<and>
     current s \<in> set (processes s') \<and> distinct (live s') \<and>
     pid (procs s' ! current s') = pid (procs s ! current s) \<and>
     pid (procs s' ! current s) = pid (procs s ! current s)"
proof -
  let ?p = "pid (procs s ! current s)"
  have nf: "find_pid (procs s) (processes s) ?p = None"
    using assms(3) by (simp add: find_pid_None)
  obtain s' where s': "switch_process c ?p s = Some s'"
      "procs s' = procs s @ [\<lparr>pid = ?p, pagetable = \<lparr>pdes = child_pdes (cur_pdes s) (length (heap s))\<rparr>\<rparr>]"
      "processes s' = processes s @ [current s]"
      "current s' = length (procs s)"
      "tlb s' = flush_tlb (tlb s)"
      "mapcounts s' = bump (entries_of s (current s)) (mapcounts s)"
      "length (heap s') = length (heap s) + length (pages_of s (current s))"
      "\<forall>a < length (heap s). heap s' ! a =
              (if a \<in> set (pages_of s (current s)) then map cow_share (heap s ! a) else heap s ! a)"
      "\<forall>k < length (pages_of s (current s)).
              heap s' ! (length (heap s) + k) = map cow_share (heap s ! (pages_of s (current s) ! k))"
    using switch_process_fork[OF assms(1,2) nf] by blast
  have ok': "state_ok c s'"
    using fork_preserves_ok(1)[OF assms(1,2) s'(2,3,4) _ _ s'(7,8,9)] s'(5,6) by simp
  have cur: "current s < length (procs s)" using state_ok_cur[OF assms(1)] by simp
  have "pid (procs s' ! current s) = ?p" using s'(2) cur by (simp add: nth_append)
  moreover have "pid (procs s' ! current s') = ?p" using s'(2,4) by simp
  moreover have "distinct (live s')" using ok' by (simp add: state_ok_def)
  ultimately show ?thesis using s'(1,2,3,4) cur by auto
qed

theorem switch_process_own_pid_forks_witness:
  "state_ok c2 ex_mapped \<and> frames_ok c2 ex_mapped \<and> processes ex_mapped = [] \<and>
   pid (procs ex_mapped ! current ex_mapped) = 0 \<and>
   map_option (\<lambda>s. (current s, processes s, map pid (procs s))) (switch_process c2 0 ex_mapped) =
     Some (1, [0], [0, 0])"
proof -
  have q: "\<forall>q \<in> set (processes ex_mapped). pid (procs ex_mapped ! q) \<noteq> pid (procs ex_mapped ! current ex_mapped)"
    by (simp add: ex_mapped_def)
  have p: "pid (procs ex_mapped ! current ex_mapped) = 0" by (simp add: ex_mapped_def)
  from switch_process_own_pid_forks [OF ex_mapped_ok [THEN conjunct1] ex_mapped_ok [THEN conjunct2] q]
  obtain s' where s': "switch_process c2 0 ex_mapped = Some s'" "current s' = length (procs ex_mapped)"
      "current ex_mapped \<in> set (processes s')"
    unfolding p by blast
  have "map_option (\<lambda>s. (current s, processes s, map pid (procs s))) (switch_process c2 0 ex_mapped) =
     Some (1, [0], [0, 0])"
    using s' by (auto simp add: vm_eval ex_mapped_def)
  then show ?thesis using ex_mapped_ok p by (simp add: ex_mapped_def)
qed

text \<open>
  The claim as stated has no condition on the queue, and fails once a queued process
  carries the pid.  After the first process has switched to its own pid 0, its child runs
  with pid 0 and the first process is queued: a second call with pid 0 finds the first
  process in the queue and resumes it, and no process is created.
\<close>

theorem switch_process_own_pid_resumes_queued_twin:
  "run c2 [Switch 0] (init_state c2) = Some ex_twin \<and>
   state_ok c2 ex_twin \<and> frames_ok c2 ex_twin \<and>
   pid (procs ex_twin ! current ex_twin) = 0 \<and>
   switch_process c2 0 ex_twin = Some (ex_twin\<lparr>processes := [1], current := 0, ptbr := 0\<rparr>) \<and>
   length (procs (ex_twin\<lparr>processes := [1], current := 0, ptbr := 0\<rparr>)) = length (procs ex_twin)"
  by (simp add: vm_eval ok_eval ex_twin_def)

section \<open>The claims on the fault handler\<close>

text \<open>
  C5 (fault-handler failure iff).  In the copy-on-write branch the result of
  \<^verbatim>\<open>alloc_page\<close> is not tested.  With both frames shared and none free, a write to page 0
  finds no frame, yet the handler returns \<^verbatim>\<open>true\<close>: it has released the shared frame and
  left (unsigned)-1 as the frame of the entry.
\<close>

theorem handle_page_fault_true_when_cow_finds_no_frame:
  "mapcounts ex_full = [2, 2] \<and>
   handle_page_fault c2 0 ACCESS_WRITE ex_full =
     Some (True,
       ex_full\<lparr>heap := [[\<lparr>pte_valid = True, pte_rw = 1, pte_pfn = 0, pte_private = 3\<rparr>,
                         \<lparr>pte_valid = True, pte_rw = 1, pte_pfn = 1, pte_private = 3\<rparr>],
                        [\<lparr>pte_valid = True, pte_rw = 3, pte_pfn = - 1, pte_private = 3\<rparr>,
                         \<lparr>pte_valid = True, pte_rw = 1, pte_pfn = 1, pte_private = 3\<rparr>]],
               mapcounts := [1, 2]\<rparr>)"
  by (simp add: vm_eval ex_full_def)

text \<open>
  C2 (copy-on-write fault), as amended.  In a well-formed state whose valid entries name
  frames of the machine, let the running process's entry for a page in range be valid, with
  the read bit set and the write bit clear in \<open>rw\<close> and the write bit set in \<open>private\<close>,
  and let the access include the write bit.  If the frame's count is greater than 1 and
  frame \<open>f\<close> is the smallest free one, the handler returns \<^verbatim>\<open>true\<close>; frame \<open>f\<close> is not
  the old frame, its count becomes 1, the old frame's count drops by 1, the entry has frame
  \<open>f\<close> and \<open>rw = 3\<close>, and nothing else changes: the new state is the old one with these
  two counts and this one entry written.  If the count is exactly 1, the handler returns
  \<^verbatim>\<open>true\<close> and the new state is the old one with the write bit added to \<open>rw\<close> of this one
  entry.  In both cases the running process's entries for all other pages and the entries
  of every queued process are unchanged.  Nothing is said of a count greater than 1 with
  no free frame.
\<close>

theorem handle_page_fault_cow:
  assumes ok: "state_ok c s" and fr: "frames_ok c s" and r: "in_range c vpn"
    and e: "cur_pte c s vpn = Some e" "pte_valid e"
    and perm: "pte_rw e AND ACCESS_READ \<noteq> 0" "pte_rw e AND ACCESS_WRITE = 0"
       "pte_private e AND ACCESS_WRITE \<noteq> 0"
    and w: "rw AND ACCESS_WRITE \<noteq> 0"
  shows "(\<forall>f. 1 < mapcounts s ! unat (pte_pfn e) \<and>
              f < NR_PAGEFRAMES c \<and> mapcounts s ! f = 0 \<and> (\<forall>g < f. mapcounts s ! g \<noteq> 0) \<longrightarrow>
            (\<exists>s' a. handle_page_fault c vpn rw s = Some (True, s') \<and>
               f \<noteq> unat (pte_pfn e) \<and>
               cur_pdes s ! page_dir_idx c vpn = Some a \<and>
               s' = s\<lparr>heap := (heap s)[a := (heap s ! a)[page_entry_idx c vpn :=
                                   e\<lparr>pte_rw := 3, pte_pfn := of_nat f\<rparr>]],
                      mapcounts := (mapcounts s)[f := 1,
                                   unat (pte_pfn e) := mapcounts s ! unat (pte_pfn e) - 1]\<rparr> \<and>
               mapcounts s' = (mapcounts s)[f := 1, unat (pte_pfn e) := mapcounts s ! unat (pte_pfn e) - 1] \<and>
               cur_pte c s' vpn = Some (e\<lparr>pte_rw := 3, pte_pfn := of_nat f\<rparr>) \<and>
               (\<forall>v. v \<noteq> vpn \<longrightarrow> cur_pte c s' v = cur_pte c s v) \<and>
               (\<forall>p \<in> set (processes s). \<forall>v. proc_pte c s' p v = proc_pte c s p v)))
       \<and> (mapcounts s ! unat (pte_pfn e) = 1 \<longrightarrow>
            (\<exists>s' a. handle_page_fault c vpn rw s = Some (True, s') \<and>
               cur_pdes s ! page_dir_idx c vpn = Some a \<and>
               s' = s\<lparr>heap := (heap s)[a := (heap s ! a)[page_entry_idx c vpn :=
                                   e\<lparr>pte_rw := pte_rw e OR ACCESS_WRITE\<rparr>]]\<rparr> \<and>
               mapcounts s' = mapcounts s \<and>
               cur_pte c s' vpn = Some (e\<lparr>pte_rw := pte_rw e OR ACCESS_WRITE\<rparr>) \<and>
               (\<forall>v. v \<noteq> vpn \<longrightarrow> cur_pte c s' v = cur_pte c s v) \<and>
               (\<forall>p \<in> set (processes s). \<forall>v. proc_pte c s' p v = proc_pte c s p v)))"
proof -
  let ?i = "page_dir_idx c vpn" and ?j = "page_entry_idx c vpn"
  let ?old = "unat (pte_pfn e)"
  have cfg: "config_ok c" and len: "length (mapcounts s) = NR_PAGEFRAMES c"
    using ok by (simp_all add: state_ok_def)
  have i: "?i < length (cur_pdes s)"
    using in_range_dir[OF cfg r] state_ok_cur[OF ok] by simp
  obtain a where a: "cur_pdes s ! ?i = Some a" "a \<in> set (pages_of s (current s))"
      "a < length (heap s)" "?j < length (heap s ! a)" "e = heap s ! a ! ?j"
    using cur_pte_SomeD[OF ok r e(1)] by blast
  have at: "pte_at s a ?j = Some e" using a by (simp add: pte_at_def)
  have old: "?old < length (mapcounts s)"
    using cur_entry_frame[OF fr a(2,4)] e(2) a(5) len by simp
  have ne: "pte_rw e \<noteq> rw" using perm(2) w by auto
  have cur: "current s < length (procs s)" using state_ok_cur[OF ok] by simp
  have walk: "cur_pte c s' vpn = Some (heap s' ! a ! ?j)"
    if "procs s' = procs s" "current s' = current s" "length (heap s') = length (heap s)"
       "length (heap s' ! a) = length (heap s ! a)" for s'
    using that i a by (simp add: cur_pte_def proc_pte_def cur_pdes_def pte_at_def)
  show ?thesis
  proof (intro conjI allI impI)
    fix f
    assume f: "1 < mapcounts s ! ?old \<and>
              f < NR_PAGEFRAMES c \<and> mapcounts s ! f = 0 \<and> (\<forall>g < f. mapcounts s ! g \<noteq> 0)"
    have ff: "find_free (mapcounts s) 0 = Some f" using f len by (simp add: find_free_first)
    have fo: "f \<noteq> ?old" using f by auto
    define s2 where "s2 = s\<lparr>mapcounts := (mapcounts s)[f := 1],
         heap := (heap s)[a := (heap s ! a)[?j := map_pte 3 (of_nat f) (heap s ! a ! ?j)]]\<rparr>"
    have al: "alloc_page c [] vpn 3 s = Some (of_nat f, s2)"
      unfolding s2_def by (rule alloc_page_present[OF ok r ff a(1)])
    define s' where "s' = pte_update a ?j (\<lambda>e. e\<lparr>pte_pfn := of_nat f\<rparr>)
        (pte_update a ?j (\<lambda>e. e\<lparr>pte_rw := pte_rw e OR ACCESS_WRITE\<rparr>)
          (s2\<lparr>mapcounts := (mapcounts s2)[?old := mapcounts s2 ! ?old - 1]\<rparr>))"
    have run: "handle_page_fault c vpn rw s = Some (True, s')"
      using i a(1) at e(2) ne w perm old f al
      by (simp add: handle_page_fault_def Let_def s'_def)
    have mc: "mapcounts s' = (mapcounts s)[f := 1, ?old := mapcounts s ! ?old - 1]"
      using fo by (simp add: s'_def s2_def pte_update_def)
    have sel: "procs s' = procs s" "current s' = current s" "length (heap s') = length (heap s)"
      "length (heap s' ! a) = length (heap s ! a)"
      using a(3) by (simp_all add: s'_def s2_def pte_update_def)
    have ve: "(heap s ! a ! ?j)\<lparr>pte_valid := True\<rparr> = heap s ! a ! ?j"
      using e(2) a(5) by simp
    have hp: "heap s' = (heap s)[a := (heap s ! a)[?j := e\<lparr>pte_rw := 3, pte_pfn := of_nat f\<rparr>]]"
      using a(3,4,5) ve by (simp add: s'_def s2_def pte_update_def map_pte_def ACCESS_WRITE_def)
    have ent: "heap s' ! a ! ?j = e\<lparr>pte_rw := 3, pte_pfn := of_nat f\<rparr>"
      using a(3,4) by (simp add: hp)
    have oth: "\<forall>b. b \<noteq> a \<longrightarrow> heap s' ! b = heap s ! b"
      by (simp add: hp)
    have others: "\<forall>p \<in> set (processes s). \<forall>v. proc_pte c s' p v = proc_pte c s p v"
      using proc_pte_other[OF ok _ a(2) sel(1,3) oth] by blast
    have mine: "\<forall>v. v \<noteq> vpn \<longrightarrow> cur_pte c s' v = cur_pte c s v"
      using cur_pte_other[OF ok i a(1) sel(1,2) hp] by blast
    have whole: "s' = s\<lparr>heap := (heap s)[a := (heap s ! a)[?j := e\<lparr>pte_rw := 3, pte_pfn := of_nat f\<rparr>]],
                      mapcounts := (mapcounts s)[f := 1, ?old := mapcounts s ! ?old - 1]\<rparr>"
      using hp mc by (simp add: s'_def s2_def pte_update_def)
    show "\<exists>s' a. handle_page_fault c vpn rw s = Some (True, s') \<and>
               f \<noteq> ?old \<and>
               cur_pdes s ! ?i = Some a \<and>
               s' = s\<lparr>heap := (heap s)[a := (heap s ! a)[?j := e\<lparr>pte_rw := 3, pte_pfn := of_nat f\<rparr>]],
                      mapcounts := (mapcounts s)[f := 1, ?old := mapcounts s ! ?old - 1]\<rparr> \<and>
               mapcounts s' = (mapcounts s)[f := 1, ?old := mapcounts s ! ?old - 1] \<and>
               cur_pte c s' vpn = Some (e\<lparr>pte_rw := 3, pte_pfn := of_nat f\<rparr>) \<and>
               (\<forall>v. v \<noteq> vpn \<longrightarrow> cur_pte c s' v = cur_pte c s v) \<and>
               (\<forall>p \<in> set (processes s). \<forall>v. proc_pte c s' p v = proc_pte c s p v)"
      apply (intro exI[of _ s'] exI[of _ a] conjI)
      using run fo a(1) whole mc walk[OF sel] ent others mine by simp_all
  next
    assume one: "mapcounts s ! ?old = 1"
    define s' where "s' = pte_update a ?j (\<lambda>e. e\<lparr>pte_rw := pte_rw e OR ACCESS_WRITE\<rparr>) s"
    have run: "handle_page_fault c vpn rw s = Some (True, s')"
      using i a(1) at e(2) ne w perm old one
      by (simp add: handle_page_fault_def Let_def s'_def)
    have sel: "procs s' = procs s" "current s' = current s" "length (heap s') = length (heap s)"
      "length (heap s' ! a) = length (heap s ! a)"
      using a(3) by (simp_all add: s'_def pte_update_def)
    have hp: "heap s' = (heap s)[a := (heap s ! a)[?j := e\<lparr>pte_rw := pte_rw e OR ACCESS_WRITE\<rparr>]]"
      using a(5) by (simp add: s'_def pte_update_def)
    have ent: "heap s' ! a ! ?j = e\<lparr>pte_rw := pte_rw e OR ACCESS_WRITE\<rparr>"
      using a(3,4) by (simp add: hp)
    have oth: "\<forall>b. b \<noteq> a \<longrightarrow> heap s' ! b = heap s ! b"
      by (simp add: hp)
    have others: "\<forall>p \<in> set (processes s). \<forall>v. proc_pte c s' p v = proc_pte c s p v"
      using proc_pte_other[OF ok _ a(2) sel(1,3) oth] by blast
    have mine: "\<forall>v. v \<noteq> vpn \<longrightarrow> cur_pte c s' v = cur_pte c s v"
      using cur_pte_other[OF ok i a(1) sel(1,2) hp] by blast
    have whole: "s' = s\<lparr>heap := (heap s)[a := (heap s ! a)[?j := e\<lparr>pte_rw := pte_rw e OR ACCESS_WRITE\<rparr>]]\<rparr>"
      using hp by (simp add: s'_def pte_update_def)
    have mc: "mapcounts s' = mapcounts s" by (simp add: s'_def pte_update_def)
    show "\<exists>s' a. handle_page_fault c vpn rw s = Some (True, s') \<and>
               cur_pdes s ! ?i = Some a \<and>
               s' = s\<lparr>heap := (heap s)[a := (heap s ! a)[?j := e\<lparr>pte_rw := pte_rw e OR ACCESS_WRITE\<rparr>]]\<rparr> \<and>
               mapcounts s' = mapcounts s \<and>
               cur_pte c s' vpn = Some (e\<lparr>pte_rw := pte_rw e OR ACCESS_WRITE\<rparr>) \<and>
               (\<forall>v. v \<noteq> vpn \<longrightarrow> cur_pte c s' v = cur_pte c s v) \<and>
               (\<forall>p \<in> set (processes s). \<forall>v. proc_pte c s' p v = proc_pte c s p v)"
      apply (intro exI[of _ s'] exI[of _ a] conjI)
      using run a(1) whole mc walk[OF sel] ent others mine by simp_all
  qed
qed

theorem handle_page_fault_cow_witness:
  "state_ok c2 ex_shared \<and> frames_ok c2 ex_shared \<and> in_range c2 0 \<and>
   cur_pte c2 ex_shared 0 = Some \<lparr>pte_valid = True, pte_rw = ACCESS_READ, pte_pfn = 0, pte_private = 3\<rparr> \<and>
   mapcounts ex_shared = [2, 0] \<and>
   handle_page_fault c2 0 ACCESS_WRITE ex_shared = Some (True, ex_copied) \<and>
   mapcounts ex_copied = [1, 1] \<and>
   cur_pte c2 ex_copied 0 = Some \<lparr>pte_valid = True, pte_rw = 3, pte_pfn = 1, pte_private = 3\<rparr> \<and>
   proc_pte c2 ex_copied 0 0 = Some \<lparr>pte_valid = True, pte_rw = ACCESS_READ, pte_pfn = 0, pte_private = 3\<rparr> \<and>
   state_ok c2 ex_last \<and> frames_ok c2 ex_last \<and>
   cur_pte c2 ex_last 0 = Some \<lparr>pte_valid = True, pte_rw = ACCESS_READ, pte_pfn = 0, pte_private = 3\<rparr> \<and>
   mapcounts ex_last = [1, 1] \<and>
   map_option (\<lambda>(r, s). (r, mapcounts s, cur_pte c2 s 0)) (handle_page_fault c2 0 ACCESS_WRITE ex_last) =
     Some (True, [1, 1], Some \<lparr>pte_valid = True, pte_rw = 3, pte_pfn = 0, pte_private = 3\<rparr>)"
proof -
  let ?e = "\<lparr>pte_valid = True, pte_rw = ACCESS_READ, pte_pfn = 0, pte_private = 3\<rparr>"
  have r: "in_range c2 0" by (simp add: ok_eval vm_eval)
  have e1: "cur_pte c2 ex_shared 0 = Some ?e" and e2: "cur_pte c2 ex_last 0 = Some ?e"
    by (simp_all add: ok_eval vm_eval ex_defs)
  have perm: "pte_valid ?e" "pte_rw ?e AND ACCESS_READ \<noteq> 0" "pte_rw ?e AND ACCESS_WRITE = 0"
    "pte_private ?e AND ACCESS_WRITE \<noteq> 0" "ACCESS_WRITE AND ACCESS_WRITE \<noteq> 0"
    by (simp_all add: vm_eval)
  note copy = handle_page_fault_cow [OF ex_shared_ok [THEN conjunct1] ex_shared_ok [THEN conjunct2] r e1 perm,
      THEN conjunct1, rule_format, of 1]
  note keep = handle_page_fault_cow [OF ex_last_ok [THEN conjunct1] ex_last_ok [THEN conjunct2] r e2 perm,
      THEN conjunct2, rule_format]
  have m: "mapcounts ex_shared = [2, 0]" "mapcounts ex_last = [1, 1]" "mapcounts ex_copied = [1, 1]"
    by (simp_all add: ex_defs)
  have pre: "1 < mapcounts ex_shared ! unat (pte_pfn ?e) \<and> 1 < NR_PAGEFRAMES c2 \<and>
      mapcounts ex_shared ! 1 = 0 \<and> (\<forall>g < 1. mapcounts ex_shared ! g \<noteq> 0)"
    by (simp add: m c2_def)
  have "\<exists>s'. handle_page_fault c2 0 ACCESS_WRITE ex_shared = Some (True, s')"
    using copy [OF pre] by blast
  then have a: "handle_page_fault c2 0 ACCESS_WRITE ex_shared = Some (True, ex_copied)"
    by (auto simp add: vm_eval ex_defs)
  have one: "mapcounts ex_last ! unat (pte_pfn ?e) = 1" by (simp add: m)
  have "\<exists>s'. handle_page_fault c2 0 ACCESS_WRITE ex_last = Some (True, s')"
    using keep [OF one] by blast
  then have b: "map_option (\<lambda>(r, s). (r, mapcounts s, cur_pte c2 s 0)) (handle_page_fault c2 0 ACCESS_WRITE ex_last) =
     Some (True, [1, 1], Some \<lparr>pte_valid = True, pte_rw = 3, pte_pfn = 0, pte_private = 3\<rparr>)"
    by (auto simp add: ok_eval vm_eval ex_defs)
  have c: "cur_pte c2 ex_copied 0 = Some \<lparr>pte_valid = True, pte_rw = 3, pte_pfn = 1, pte_private = 3\<rparr>"
    "proc_pte c2 ex_copied 0 0 = Some ?e"
    by (simp_all add: ok_eval vm_eval ex_defs)
  show ?thesis using ex_shared_ok ex_last_ok r e1 e2 m a b c by simp
qed

text \<open>
  The claim as stated fails in two ways.  With every frame in use (\<open>ex_full\<close>) no frame
  can be allocated: the handler still returns \<^verbatim>\<open>true\<close>, with (unsigned)-1 in the entry.
  With a valid entry whose \<open>rw\<close> has neither bit (\<open>ex_norw\<close>) the handler returns
  \<^verbatim>\<open>false\<close>, because it asks for the read bit before it looks at \<open>private\<close>.
\<close>

theorem handle_page_fault_cow_fails_without_frame_or_read_bit:
  "cur_pte c2 ex_full 0 = Some \<lparr>pte_valid = True, pte_rw = ACCESS_READ, pte_pfn = 0, pte_private = 3\<rparr> \<and>
   mapcounts ex_full = [2, 2] \<and>
   handle_page_fault c2 0 ACCESS_WRITE ex_full =
     Some (True,
       ex_full\<lparr>heap := [[\<lparr>pte_valid = True, pte_rw = 1, pte_pfn = 0, pte_private = 3\<rparr>,
                         \<lparr>pte_valid = True, pte_rw = 1, pte_pfn = 1, pte_private = 3\<rparr>],
                        [\<lparr>pte_valid = True, pte_rw = 3, pte_pfn = - 1, pte_private = 3\<rparr>,
                         \<lparr>pte_valid = True, pte_rw = 1, pte_pfn = 1, pte_private = 3\<rparr>]],
               mapcounts := [1, 2]\<rparr>) \<and>
   cur_pte c2 ex_norw 0 = Some \<lparr>pte_valid = True, pte_rw = 0, pte_pfn = 1, pte_private = 3\<rparr> \<and>
   mapcounts ex_norw = [1, 1] \<and>
   handle_page_fault c2 0 ACCESS_WRITE ex_norw = Some (False, ex_norw)"
  by (simp add: ok_eval vm_eval ex_defs)

section \<open>The claims on frames\<close>

text \<open>
  C8 (smallest-free-frame allocation).  In a well-formed state and for a page in range:
  when frame \<open>f\<close> is free and no smaller frame is, \<^verbatim>\<open>alloc_page\<close> returns \<open>f\<close>, sets
  its count to 1 (no other count changes) and leaves the running process's entry for the page
  valid, with frame \<open>f\<close> and the requested access, creating the directory page when it was
  missing; when no frame is free it returns (unsigned)-1 and the state is unchanged.
\<close>

theorem alloc_page_smallest_free:
  assumes "state_ok c s" "in_range c vpn" "length junk = NR_PTES_PER_PAGE c"
  shows "(\<forall>f. f < NR_PAGEFRAMES c \<and> mapcounts s ! f = 0 \<and> (\<forall>g < f. mapcounts s ! g \<noteq> 0) \<longrightarrow>
            (\<exists>s'. alloc_page c junk vpn rw s = Some (of_nat f, s') \<and>
                   unat (of_nat f :: u32) = f \<and> (of_nat f :: u32) \<noteq> - 1 \<and>
                   mapcounts s' = (mapcounts s)[f := 1] \<and>
                   (\<exists>e. cur_pte c s' vpn = Some e \<and> pte_valid e \<and> pte_pfn e = of_nat f \<and> pte_rw e = rw)))
       \<and> ((\<forall>f < NR_PAGEFRAMES c. mapcounts s ! f \<noteq> 0) \<longrightarrow> alloc_page c junk vpn rw s = Some (- 1, s))"
proof (intro conjI allI impI)
  fix f
  assume f: "f < NR_PAGEFRAMES c \<and> mapcounts s ! f = 0 \<and> (\<forall>g < f. mapcounts s ! g \<noteq> 0)"
  have cfg: "config_ok c" and len: "length (mapcounts s) = NR_PAGEFRAMES c"
    using assms(1) by (simp_all add: state_ok_def)
  have ff: "find_free (mapcounts s) 0 = Some f"
    using f len by (simp add: find_free_first)
  have i: "page_dir_idx c vpn < length (cur_pdes s)"
    using in_range_dir[OF cfg assms(2)] state_ok_cur[OF assms(1)] by simp
  have cur: "current s < length (procs s)" using state_ok_cur[OF assms(1)] by simp
  have j: "page_entry_idx c vpn < NR_PTES_PER_PAGE c" by (rule in_range_entry[OF cfg])
  show "\<exists>s'. alloc_page c junk vpn rw s = Some (of_nat f, s') \<and>
             unat (of_nat f :: u32) = f \<and> (of_nat f :: u32) \<noteq> - 1 \<and>
             mapcounts s' = (mapcounts s)[f := 1] \<and>
             (\<exists>e. cur_pte c s' vpn = Some e \<and> pte_valid e \<and> pte_pfn e = of_nat f \<and> pte_rw e = rw)"
  proof (cases "cur_pdes s ! page_dir_idx c vpn")
    case None
    show ?thesis
      using alloc_page_absent[OF assms(1,2) ff None assms(3), of rw] frame_word[OF cfg, of f] f i cur j assms(3)
      by (simp add: cur_pte_def proc_pte_def cur_pdes_def pte_at_def map_pte_def)
  next
    case (Some pd)
    have pg: "pd < length (heap s) \<and> length (heap s ! pd) = NR_PTES_PER_PAGE c"
      using state_ok_cur_page[OF assms(1) _ Some] in_range_dir[OF cfg assms(2)] by simp
    show ?thesis
      using alloc_page_present[OF assms(1,2) ff Some, of junk rw] frame_word[OF cfg, of f] f i cur j pg Some
      by (simp add: cur_pte_def proc_pte_def cur_pdes_def pte_at_def map_pte_def)
  qed
next
  assume "\<forall>f < NR_PAGEFRAMES c. mapcounts s ! f \<noteq> 0"
  moreover have "length (mapcounts s) = NR_PAGEFRAMES c" using assms(1) by (simp add: state_ok_def)
  ultimately have "0 \<notin> set (mapcounts s)" by (auto simp: in_set_conv_nth)
  then show "alloc_page c junk vpn rw s = Some (- 1, s)" by (rule alloc_page_full)
qed

theorem alloc_page_smallest_free_witness:
  "state_ok c2 ex_hole \<and> state_ok c2 ex_full \<and> in_range c2 2 \<and>
   mapcounts ex_hole = [0, 1] \<and> mapcounts ex_full = [2, 2] \<and>
   alloc_page c2 (replicate 2 zero_pte) 2 ACCESS_READ ex_hole =
     Some (0, ex_hole\<lparr>mapcounts := [1, 1],
                     heap := heap ex_hole @
                       [[\<lparr>pte_valid = True, pte_rw = ACCESS_READ, pte_pfn = 0, pte_private = 0\<rparr>,
                         \<lparr>pte_valid = False, pte_rw = 0, pte_pfn = 0, pte_private = 0\<rparr>]],
                     procs := [\<lparr>pid = 0, pagetable = \<lparr>pdes = [Some 0, Some 1]\<rparr>\<rparr>]\<rparr>) \<and>
   alloc_page c2 (replicate 2 zero_pte) 2 ACCESS_READ ex_full = Some (- 1, ex_full)"
proof -
  have r: "in_range c2 2" by (simp add: ok_eval vm_eval)
  have l: "length (replicate 2 zero_pte) = NR_PTES_PER_PAGE c2" by (simp add: c2_def)
  have m: "mapcounts ex_hole = [0, 1]" "mapcounts ex_full = [2, 2]"
    by (simp_all add: ex_hole_def ex_full_def)
  have f0: "0 < NR_PAGEFRAMES c2 \<and> mapcounts ex_hole ! 0 = 0 \<and> (\<forall>g < 0. mapcounts ex_hole ! g \<noteq> 0)"
    by (simp add: m c2_def)
  have full: "\<forall>f < NR_PAGEFRAMES c2. mapcounts ex_full ! f \<noteq> 0"
    by (simp add: m c2_def less_Suc_eq numeral_2_eq_2)
  from alloc_page_smallest_free [OF ex_hole_ok r l, of ACCESS_READ] f0
  obtain s' where s': "alloc_page c2 (replicate 2 zero_pte) 2 ACCESS_READ ex_hole = Some (of_nat 0, s')"
    by blast
  have a: "alloc_page c2 (replicate 2 zero_pte) 2 ACCESS_READ ex_hole =
     Some (0, ex_hole\<lparr>mapcounts := [1, 1],
                     heap := heap ex_hole @
                       [[\<lparr>pte_valid = True, pte_rw = ACCESS_READ, pte_pfn = 0, pte_private = 0\<rparr>,
                         \<lparr>pte_valid = False, pte_rw = 0, pte_pfn = 0, pte_private = 0\<rparr>]],
                     procs := [\<lparr>pid = 0, pagetable = \<lparr>pdes = [Some 0, Some 1]\<rparr>\<rparr>]\<rparr>)"
    using s' by (simp add: vm_eval ex_hole_def)
  have b: "alloc_page c2 (replicate 2 zero_pte) 2 ACCESS_READ ex_full = Some (- 1, ex_full)"
    using alloc_page_smallest_free [OF ex_full_ok r l, of ACCESS_READ] full by blast
  show ?thesis using ex_hole_ok ex_full_ok r m a b by simp
qed

text \<open>
  C9 (\<^verbatim>\<open>free_page\<close> on an invalid entry).  In a well-formed state and for a page in
  range whose entry is invalid, or whose directory page is missing, \<^verbatim>\<open>free_page\<close> returns
  the state it was given: no count, no TLB entry and no page-table entry changes.
\<close>

theorem free_page_invalid_noop: 
  assumes "state_ok c s" "in_range c vpn" "\<forall>e. cur_pte c s vpn = Some e \<longrightarrow> \<not> pte_valid e"
  shows "free_page c vpn s = Some s"
proof -
  have cfg: "config_ok c" using assms(1) by (simp add: state_ok_def)
  have i: "page_dir_idx c vpn < length (cur_pdes s)"
    using in_range_dir[OF cfg assms(2)] state_ok_cur[OF assms(1)] by simp
  show ?thesis
  proof (cases "cur_pdes s ! page_dir_idx c vpn")
    case None
    then show ?thesis using i by (simp add: free_page_def)
  next
    case (Some pd)
    have pg: "pd < length (heap s) \<and> length (heap s ! pd) = NR_PTES_PER_PAGE c"
      using state_ok_cur_page[OF assms(1) _ Some] in_range_dir[OF cfg assms(2)] by simp
    then have at: "pte_at s pd (page_entry_idx c vpn) = Some (heap s ! pd ! page_entry_idx c vpn)"
      using in_range_entry[OF cfg, of vpn] by (simp add: pte_at_def)
    have "cur_pte c s vpn = Some (heap s ! pd ! page_entry_idx c vpn)"
      using i Some at by (simp add: cur_pte_def proc_pte_def cur_pdes_def)
    then have "\<not> pte_valid (heap s ! pd ! page_entry_idx c vpn)" using assms(3) by simp
    then show ?thesis using i Some at by (simp add: free_page_def)
  qed
qed

theorem free_page_invalid_noop_witness:
  "state_ok c2 ex_hole \<and> in_range c2 0 \<and> in_range c2 2 \<and>
   cur_pte c2 ex_hole 0 = Some \<lparr>pte_valid = False, pte_rw = 0, pte_pfn = 0, pte_private = 0\<rparr> \<and>
   cur_pte c2 ex_hole 2 = None \<and>
   free_page c2 0 ex_hole = Some ex_hole \<and> free_page c2 2 ex_hole = Some ex_hole"
proof -
  have r: "in_range c2 0" "in_range c2 2" by (simp_all add: ok_eval vm_eval)
  have p0: "cur_pte c2 ex_hole 0 = Some \<lparr>pte_valid = False, pte_rw = 0, pte_pfn = 0, pte_private = 0\<rparr>"
    by (simp add: ok_eval vm_eval ex_hole_def)
  have p2: "cur_pte c2 ex_hole 2 = None"
    by (simp add: ok_eval vm_eval ex_hole_def)
  have "free_page c2 0 ex_hole = Some ex_hole"
    using free_page_invalid_noop [OF ex_hole_ok r(1)] p0 by simp
  moreover have "free_page c2 2 ex_hole = Some ex_hole"
    using free_page_invalid_noop [OF ex_hole_ok r(2)] p2 by simp
  ultimately show ?thesis using ex_hole_ok r p0 p2 by simp
qed

section \<open>The claim on reference counts\<close>

text \<open>
  C1 (refcount conservation), as amended.  In every reachable state, for every frame,
  the frame's count is the number of valid page-table entries of live processes that map
  the frame, taken as an \<^verbatim>\<open>unsigned int\<close>: the two are equal whenever fewer than
  \<open>2 ^ 32\<close> entries map the frame.  Reachable is as \<open>reachable\<close> defines it:
  \<^verbatim>\<open>alloc_page\<close> is only called for a page that is not mapped.
\<close>

theorem refcount_conservation:
  assumes "config_ok c" "reachable c s" "f < NR_PAGEFRAMES c"
  shows "mapcounts s ! f = of_nat (refcount s f) \<and>
         (refcount s f < 2 ^ 32 \<longrightarrow> unat (mapcounts s ! f) = refcount s f)"
proof -
  have "counts_ok c s" using reachable_inv[OF assms(1,2)] by (simp add: vm_inv_def)
  then have eq: "mapcounts s ! f = of_nat (refcount s f)" using assms(3) by (simp add: counts_ok_def)
  have "unat (of_nat (refcount s f) :: u32) = refcount s f" if "refcount s f < 2 ^ 32"
    using that by (simp add: unat_of_nat)
  then show ?thesis using eq by simp
qed

theorem refcount_conservation_witness:
  "config_ok c2 \<and> reachable c2 ex_shared \<and> mapcounts ex_shared = [2, 0] \<and>
   refcount ex_shared 0 = 2 \<and> refcount ex_shared 1 = 0"
proof -
  have cfg: "config_ok c2" by (simp add: config_ok_def c2_def)
  have r: "in_range c2 0" by (simp add: ok_eval c2_def)
  have "handle_page_fault c2 0 3 (init_state c2) = Some (True, ex_one)"
    by (simp add: vm_eval ex_one_def)
  moreover have "0 \<in> set (mapcounts (init_state c2)) \<or> mapcounts ex_one = mapcounts (init_state c2)"
    by (simp add: vm_eval)
  ultimately have "reachable c2 ex_one"
    using reachable.fault[OF reachable.init r] by blast
  moreover have "switch_process c2 7 ex_one = Some ex_shared"
    by (simp add: vm_eval ex_one_def ex_defs)
  ultimately have re: "reachable c2 ex_shared" by (rule reachable.switch)
  have m: "mapcounts ex_shared = [2, 0]" by (simp add: ex_defs)
  have "mapcounts ex_shared ! 0 = of_nat (refcount ex_shared 0)"
    "mapcounts ex_shared ! 1 = of_nat (refcount ex_shared 1)"
    using refcount_conservation [OF cfg re] by (simp_all add: c2_def)
  moreover have "refcount ex_shared 0 = 2" "refcount ex_shared 1 = 0"
    by (simp_all add: count_eval ex_defs)
  ultimately show ?thesis using cfg re m by simp
qed

text \<open>
  The claim as stated fails: \<^verbatim>\<open>alloc_page\<close> for a page that is already mapped points the
  entry at a new frame and never releases the old one.  After two calls for page 0, both
  with frames to spare, frame 0 has count 1 and no entry maps it.
\<close>

theorem refcount_broken_by_second_alloc:
  "in_range c2 0 \<and>
   run c2 [Alloc (replicate 2 zero_pte) 0 3, Alloc (replicate 2 zero_pte) 0 3] (init_state c2) = Some ex_leak \<and>
   mapcounts ex_leak ! 0 = 1 \<and> refcount ex_leak 0 = 0"
  by (simp add: vm_eval ok_eval count_eval ex_leak_def ex_one_def)

end
